theory Spec2Isabelle
  imports Main "HOL-Library.AList"
begin

chapter \<open>Upload orchestration and scheduling engine of \<^verbatim>\<open>main.py\<close>\<close>

text \<open>
  Part I embeds the data model and the operations of \<^verbatim>\<open>src/main.py\<close>; Part II states
  and proves the properties. Python exceptions are values of \<open>py_error\<close>, dictionaries are
  maps or records of optional fields, and every collaborator (transport, publish client,
  transcoder, document store) is an explicit argument or an explicit piece of state.
\<close>

section \<open>Part I: the model\<close>

datatype py_error =
    IndexError | KeyError | ValueError
  | CancelledError | LoginRequired | MediaUploadError | ClientError | OtherException

text \<open>
  A Python \<^verbatim>\<open>str\<close> typed by a user is a list of code points, so that \<open>length\<close> is
  Python's \<^verbatim>\<open>len\<close>. Identifiers, paths and message texts written in the source are
  \<open>string\<close>s; the decorations of \<^verbatim>\<open>to_bold_sans\<close> and the emoji are left out of them.
\<close>

type_synonym pystr = "nat list"

subsection \<open>BulkScheduleComputer: the window branch of \<^verbatim>\<open>schedule_preset_cb\<close>\<close>

text \<open>
  A \<open>datetime\<close> is a number of microseconds. Local (IST) wall-clock values count from a
  local midnight, so the calendar day of \<open>t\<close> is \<open>t div US_PER_DAY\<close> and its time of day is
  \<open>t mod US_PER_DAY\<close>; Asia/Kolkata has a fixed offset of 5 h 30 min, so
  \<^verbatim>\<open>astimezone(pytz.utc).replace(tzinfo=None)\<close> subtracts \<open>IST_OFFSET\<close>.
\<close>

type_synonym datetime = int

definition US_PER_MINUTE :: int where
  "US_PER_MINUTE = 60000000"

definition US_PER_DAY :: int where
  "US_PER_DAY = 86400000000"

definition IST_OFFSET :: int where
  "IST_OFFSET = 19800000000"

definition to_utc :: "datetime \<Rightarrow> datetime" where
  "to_utc t = t - IST_OFFSET"

definition to_ist :: "datetime \<Rightarrow> datetime" where
  "to_ist t = t + IST_OFFSET"

text \<open>
  \<^verbatim>\<open>dt.replace(hour=h, minute=m, second=0, microsecond=0)\<close>: the same calendar day at
  \<open>h:m\<close>. Python raises ValueError when \<open>h\<close> or \<open>m\<close> is out of range.
\<close>

definition time_of_day :: "int \<Rightarrow> int \<Rightarrow> int" where
  "time_of_day h m = (h * 60 + m) * US_PER_MINUTE"

definition replace_hm :: "datetime \<Rightarrow> int \<Rightarrow> int \<Rightarrow> py_error + datetime" where
  "replace_hm t h m =
     (if 0 \<le> h \<and> h < 24 \<and> 0 \<le> m \<and> m < 60
      then Inr ((t div US_PER_DAY) * US_PER_DAY + time_of_day h m)
      else Inl ValueError)"

text \<open>
  \<^verbatim>\<open>timedelta(minutes=total_minutes / media_count)\<close>: the quotient, kept to the
  microsecond (a \<^verbatim>\<open>timedelta\<close> rounds half to even). The span is a whole number of
  minutes here.
\<close>

definition round_half_even_div :: "int \<Rightarrow> int \<Rightarrow> int" where
  "round_half_even_div a b =
     (let q = a div b; r = a mod b
      in if 2 * r < b then q
         else if b < 2 * r then q + 1
         else if even q then q else q + 1)"

record post =
  run_at :: datetime
  caption :: "pystr option"

text \<open>
  The \<^verbatim>\<open>for i in range(media_count)\<close> loop. \<open>k\<close> is the number of iterations left, \<open>i\<close> the
  index, \<open>caps\<close> the value of \<^verbatim>\<open>state_data.get('bulk_captions', [None])\<close>, \<open>cur\<close> the cursor
  \<^verbatim>\<open>current_schedule_time\<close>. The comparison is always against today's window end.
\<close>

fun window_loop ::
  "nat \<Rightarrow> nat \<Rightarrow> pystr option list \<Rightarrow> datetime \<Rightarrow> datetime \<Rightarrow> int \<Rightarrow> int \<Rightarrow> int
    \<Rightarrow> py_error + post list" where
  "window_loop 0 i caps cur end_of_today_window sh sm iv = Inr []"
| "window_loop (Suc k) i caps cur end_of_today_window sh sm iv =
     (case (if end_of_today_window < cur then replace_hm (cur + US_PER_DAY) sh sm else Inr cur) of
        Inl e \<Rightarrow> Inl e
      | Inr cur' \<Rightarrow>
          if i < length caps
          then (case window_loop k (Suc i) caps (cur' + iv) end_of_today_window sh sm iv of
                  Inl e \<Rightarrow> Inl e
                | Inr ps \<Rightarrow> Inr (\<lparr>run_at = to_utc cur', caption = caps ! i\<rparr> # ps))
          else Inl IndexError)"

datatype 'a preset_result =
    Answered string
  | Raised py_error
  | Scheduled 'a

text \<open>
  The branch \<^verbatim>\<open>preset_key in ["morning", "evening"]\<close>, after the window's
  \<^verbatim>\<open>"HH:MM"\<close> strings have been parsed into \<open>(sh, sm)\<close> and \<open>(eh, em)\<close>. \<open>media_count\<close> is
  \<^verbatim>\<open>len(state_data.get('media_file_ids', []))\<close>; the handler answers and returns when it is 0.
\<close>

definition schedule_window ::
  "datetime \<Rightarrow> nat \<Rightarrow> pystr option list \<Rightarrow> int \<Rightarrow> int \<Rightarrow> int \<Rightarrow> int \<Rightarrow> post list preset_result" where
  "schedule_window now_ist media_count caps sh sm eh em =
     (if media_count = 0 then Answered ''No media files to schedule.''
      else case replace_hm now_ist sh sm of
        Inl e \<Rightarrow> Raised e
      | Inr start_of_today_window \<Rightarrow>
         (case replace_hm now_ist eh em of
            Inl e \<Rightarrow> Raised e
          | Inr end_of_today_window \<Rightarrow>
             (let total = end_of_today_window - start_of_today_window
              in if total \<le> 0
                 then Answered ''The selected time window is invalid or too short.''
                 else
                   (let iv = round_half_even_div total (int media_count);
                        cur = (if start_of_today_window < now_ist then now_ist
                               else start_of_today_window)
                    in case window_loop media_count 0 caps cur end_of_today_window sh sm iv of
                         Inl e \<Rightarrow> Raised e
                       | Inr ps \<Rightarrow> Scheduled ps))))"

text \<open>A UTC timestamp lies in the window of its local calendar day.\<close>

definition in_window :: "int \<Rightarrow> int \<Rightarrow> int \<Rightarrow> int \<Rightarrow> datetime \<Rightarrow> bool" where
  "in_window sh sm eh em t =
     (let tod = to_ist t mod US_PER_DAY
      in time_of_day sh sm \<le> tod \<and> tod \<le> time_of_day eh em)"

definition valid_window :: "int \<Rightarrow> int \<Rightarrow> int \<Rightarrow> int \<Rightarrow> bool" where
  "valid_window sh sm eh em =
     (0 \<le> sh \<and> sh < 24 \<and> 0 \<le> sm \<and> sm < 60 \<and> 0 \<le> eh \<and> eh < 24 \<and> 0 \<le> em \<and> em < 60
      \<and> time_of_day sh sm < time_of_day eh em)"

subsection \<open>TaskRegistry: \<^verbatim>\<open>TaskTracker\<close> over the event loop\<close>

text \<open>
  An asyncio task is a row of the event loop's table, addressed by a handle. \<open>finished\<close> is
  \<^verbatim>\<open>task.done()\<close>; \<open>must_cancel\<close> is set by \<^verbatim>\<open>task.cancel()\<close>, which only requests the
  cancellation of a task that is not done; \<open>created_at\<close> is the loop's clock (in seconds)
  when the task was created. The type \<open>'c\<close> is what the task runs.
\<close>

record 'c atask =
  coro :: 'c
  finished :: bool
  must_cancel :: bool
  created_at :: int

record 'c event_loop =
  clock :: int
  next_handle :: nat
  task_table :: "nat \<rightharpoonup> 'c atask"

definition loop_create_task :: "'c \<Rightarrow> 'c event_loop \<Rightarrow> nat \<times> 'c event_loop" where
  "loop_create_task c l =
     (next_handle l,
      l\<lparr>next_handle := Suc (next_handle l),
        task_table := (task_table l)(next_handle l \<mapsto>
          \<lparr>coro = c, finished = False, must_cancel = False, created_at = clock l\<rparr>)\<rparr>)"

definition task_done :: "'c event_loop \<Rightarrow> nat \<Rightarrow> bool" where
  "task_done l h = (case task_table l h of None \<Rightarrow> True | Some t \<Rightarrow> finished t)"

definition task_cancel_requested :: "'c event_loop \<Rightarrow> nat \<Rightarrow> bool" where
  "task_cancel_requested l h = (case task_table l h of None \<Rightarrow> False | Some t \<Rightarrow> must_cancel t)"

definition task_cancel :: "nat \<Rightarrow> 'c event_loop \<Rightarrow> 'c event_loop" where
  "task_cancel h l =
     (case task_table l h of
        None \<Rightarrow> l
      | Some t \<Rightarrow> if finished t then l
                  else l\<lparr>task_table := (task_table l)(h \<mapsto> t\<lparr>must_cancel := True\<rparr>)\<rparr>)"

text \<open>
  \<^verbatim>\<open>TaskTracker\<close>: \<open>tasks\<close> is \<^verbatim>\<open>_tasks\<close>, \<open>user_specific_tasks\<close> the dictionary of
  dictionaries \<^verbatim>\<open>_user_specific_tasks\<close> (association lists with distinct keys),
  \<open>loop_set\<close> says that \<^verbatim>\<open>self.loop\<close> is not None.
\<close>

record tracker =
  tasks :: "nat set"
  user_specific_tasks :: "(int \<times> (string \<times> nat) list) list"
  loop_set :: bool

definition tracker_init :: tracker where
  "tracker_init = \<lparr>tasks = {}, user_specific_tasks = [], loop_set = False\<rparr>"

definition registered :: "tracker \<Rightarrow> int \<Rightarrow> string \<Rightarrow> nat option" where
  "registered tt user_id task_name =
     (case map_of (user_specific_tasks tt) user_id of
        None \<Rightarrow> None
      | Some m \<Rightarrow> map_of m task_name)"

definition cancel_user_task ::
  "int \<Rightarrow> string \<Rightarrow> tracker \<times> 'c event_loop \<Rightarrow> tracker \<times> 'c event_loop" where
  "cancel_user_task user_id task_name s =
     (case s of (tt, l) \<Rightarrow>
        (case map_of (user_specific_tasks tt) user_id of
           None \<Rightarrow> (tt, l)
         | Some m \<Rightarrow>
            (case map_of m task_name of
               None \<Rightarrow> (tt, l)
             | Some task_to_cancel \<Rightarrow>
                 (let m' = AList.delete task_name m;
                      l' = (if \<not> task_done l task_to_cancel then task_cancel task_to_cancel l else l);
                      ust = (if m' = [] then AList.delete user_id (user_specific_tasks tt)
                             else AList.update user_id m' (user_specific_tasks tt))
                  in (tt\<lparr>user_specific_tasks := ust\<rparr>, l')))))"

text \<open>Python truthiness of \<^verbatim>\<open>user_id and task_name\<close>: neither None, 0 nor the empty string.\<close>

definition task_key :: "int option \<Rightarrow> string option \<Rightarrow> (int \<times> string) option" where
  "task_key user_id task_name =
     (case user_id of
        None \<Rightarrow> None
      | Some u \<Rightarrow>
         (case task_name of
            None \<Rightarrow> None
          | Some n \<Rightarrow> if u \<noteq> 0 \<and> n \<noteq> [] then Some (u, n) else None))"

definition register_task ::
  "int \<Rightarrow> string \<Rightarrow> nat \<Rightarrow> (int \<times> (string \<times> nat) list) list \<Rightarrow> (int \<times> (string \<times> nat) list) list" where
  "register_task user_id task_name h ust =
     (case map_of ust user_id of
        None \<Rightarrow> AList.update user_id [(task_name, h)] ust
      | Some m \<Rightarrow> AList.update user_id (AList.update task_name h m) ust)"

text \<open>
  \<^verbatim>\<open>create_task\<close>. \<open>running\<close> says whether \<^verbatim>\<open>asyncio.get_running_loop()\<close> would succeed; with
  no loop the method logs and returns None.
\<close>

definition create_task ::
  "bool \<Rightarrow> 'c \<Rightarrow> int option \<Rightarrow> string option \<Rightarrow> tracker \<times> 'c event_loop
    \<Rightarrow> nat option \<times> tracker \<times> 'c event_loop" where
  "create_task running c user_id task_name s =
     (case s of (tt, l) \<Rightarrow>
        if \<not> loop_set tt \<and> \<not> running then (None, tt, l)
        else
          (let tt1 = tt\<lparr>loop_set := True\<rparr>;
               s2 = (case task_key user_id task_name of
                       None \<Rightarrow> (tt1, l)
                     | Some (u, n) \<Rightarrow> cancel_user_task u n (tt1, l));
               hl = loop_create_task c (snd s2);
               tt3 = (fst s2)\<lparr>tasks := insert (fst hl) (tasks (fst s2))\<rparr>;
               tt4 = (case task_key user_id task_name of
                        None \<Rightarrow> tt3
                      | Some (u, n) \<Rightarrow>
                          tt3\<lparr>user_specific_tasks :=
                                register_task u n (fst hl) (user_specific_tasks tt3)\<rparr>)
           in (Some (fst hl), tt4, snd hl)))"

text \<open>
  \<^verbatim>\<open>cancel_all_user_tasks\<close> up to its \<^verbatim>\<open>await\<close>: it pops the user's dictionary and cancels
  every task in it that is not done.
\<close>

definition cancel_all_user_tasks ::
  "int \<Rightarrow> tracker \<times> 'c event_loop \<Rightarrow> tracker \<times> 'c event_loop" where
  "cancel_all_user_tasks user_id s =
     (case s of (tt, l) \<Rightarrow>
        (case map_of (user_specific_tasks tt) user_id of
           None \<Rightarrow> (tt, l)
         | Some user_tasks \<Rightarrow>
             (tt\<lparr>user_specific_tasks := AList.delete user_id (user_specific_tasks tt)\<rparr>,
              fold (\<lambda>(task_name, task). task_cancel task) user_tasks l)))"

text \<open>
  A task reaching a terminal state: the loop marks it done and runs its done callback
  \<^verbatim>\<open>self._tasks.discard\<close>.
\<close>

definition task_finishes :: "nat \<Rightarrow> tracker \<times> 'c event_loop \<Rightarrow> tracker \<times> 'c event_loop" where
  "task_finishes h s =
     (case s of (tt, l) \<Rightarrow>
        (case task_table l h of
           None \<Rightarrow> (tt, l)
         | Some t \<Rightarrow> (tt\<lparr>tasks := tasks tt - {h}\<rparr>,
                      l\<lparr>task_table := (task_table l)(h \<mapsto> t\<lparr>finished := True\<rparr>)\<rparr>)))"

text \<open>
  Histories of the registry. A history is a list of calls and completions; running it
  also yields the log of keyed spawns, each with the handle it returned.
\<close>

datatype 'c tracker_op =
    Spawn bool 'c "int option" "string option"
  | Cancel int string
  | CancelAll int
  | Finish nat

type_synonym 'c registry = "tracker \<times> 'c event_loop \<times> ((int \<times> string) \<times> nat) list"

fun run_op :: "'c tracker_op \<Rightarrow> 'c registry \<Rightarrow> 'c registry" where
  "run_op (Spawn running c user_id task_name) (tt, l, spawned) =
     (case create_task running c user_id task_name (tt, l) of
        (None, tt', l') \<Rightarrow> (tt', l', spawned)
      | (Some h, tt', l') \<Rightarrow>
          (tt', l', (case task_key user_id task_name of
                       None \<Rightarrow> spawned
                     | Some k \<Rightarrow> spawned @ [(k, h)])))"
| "run_op (Cancel user_id task_name) (tt, l, spawned) =
     (case cancel_user_task user_id task_name (tt, l) of (tt', l') \<Rightarrow> (tt', l', spawned))"
| "run_op (CancelAll user_id) (tt, l, spawned) =
     (case cancel_all_user_tasks user_id (tt, l) of (tt', l') \<Rightarrow> (tt', l', spawned))"
| "run_op (Finish h) (tt, l, spawned) =
     (case task_finishes h (tt, l) of (tt', l') \<Rightarrow> (tt', l', spawned))"

definition run_ops :: "'c tracker_op list \<Rightarrow> 'c registry \<Rightarrow> 'c registry" where
  "run_ops ops s = fold run_op ops s"

definition loop_init :: "'c event_loop" where
  "loop_init = \<lparr>clock = 0, next_handle = 0, task_table = Map.empty\<rparr>"

definition registry_init :: "'c registry" where
  "registry_init = (tracker_init, loop_init, [])"

subsection \<open>The document store and the per-user conversation state\<close>

text \<open>
  \<^verbatim>\<open>state_data\<close> is a dictionary; the record has one optional field for each key the upload
  flows read or write, and the empty dictionary is \<open>empty_state\<close>. \<^verbatim>\<open>file_info\<close> likewise.
\<close>

record file_info =
  fi_platform :: "string option"
  fi_upload_type :: "string option"
  fi_file_id :: "string option"
  fi_original_media_msg_id :: "int option"
  fi_usertags :: "pystr list"
  fi_location :: "string option"
  fi_custom_caption :: "pystr option"
  fi_downloaded_path :: "string option"
  fi_media_file_ids :: "string list option"

definition empty_file_info :: file_info where
  "empty_file_info =
     \<lparr>fi_platform = None, fi_upload_type = None, fi_file_id = None,
      fi_original_media_msg_id = None, fi_usertags = [], fi_location = None,
      fi_custom_caption = None, fi_downloaded_path = None, fi_media_file_ids = None\<rparr>"

record state_data =
  action :: "string option"
  sd_platform :: "string option"
  sd_upload_type :: "string option"
  sd_file_info :: "file_info option"
  media_file_ids :: "string list option"
  media_msgs :: "(int \<times> int) list option"
  media_count :: "int option"
  media_limit :: "int option"
  bulk_captions :: "pystr option list option"

definition empty_state :: state_data where
  "empty_state =
     \<lparr>action = None, sd_platform = None, sd_upload_type = None, sd_file_info = None,
      media_file_ids = None, media_msgs = None, media_count = None, media_limit = None,
      bulk_captions = None\<rparr>"

record premium_info =
  pr_status :: "string option"
  pr_type :: "string option"
  pr_until :: "datetime option"

definition empty_premium :: premium_info where
  "empty_premium = \<lparr>pr_status = None, pr_type = None, pr_until = None\<rparr>"

record user_doc =
  premium :: "(string \<times> premium_info) list"
  last_active :: "datetime option"

record schedule_entry =
  se_user_id :: int
  se_platform :: string
  se_upload_type :: string
  se_file_id :: "string option"
  se_media_msg_id :: "int option"
  se_caption :: "pystr option"
  se_run_at :: datetime
  se_status :: string
  se_completed_at :: "datetime option"

record watermark_settings =
  wm_enabled :: bool
  wm_type :: "string option"
  wm_text :: pystr
  wm_image_id :: "string option"

record user_settings =
  active_ig_username :: "string option"
  watermark :: watermark_settings

record upload_doc =
  up_user_id :: int
  up_platform :: string
  up_upload_type :: string
  up_url :: string

text \<open>
  The collections the core uses. \<open>schedules\<close> keeps the documents in insertion order,
  each under its \<^verbatim>\<open>_id\<close>.
\<close>

record database =
  users :: "int \<rightharpoonup> user_doc"
  user_states :: "int \<rightharpoonup> state_data"
  settings :: "int \<rightharpoonup> user_settings"
  schedules :: "(nat \<times> schedule_entry) list"
  uploads :: "upload_doc list"

text \<open>
  \<^verbatim>\<open>_get_user_state\<close>, \<^verbatim>\<open>_save_user_state\<close> and \<^verbatim>\<open>_clear_user_state\<close>. The global \<^verbatim>\<open>db\<close>
  is None when the store could not be reached at start-up; encryption and decryption of
  the stored dictionary are taken to be inverse to each other.
\<close>

definition get_user_state :: "database option \<Rightarrow> int \<Rightarrow> state_data" where
  "get_user_state d user_id =
     (case d of
        None \<Rightarrow> empty_state
      | Some dd \<Rightarrow> (case user_states dd user_id of None \<Rightarrow> empty_state | Some sd \<Rightarrow> sd))"

definition save_user_state :: "int \<Rightarrow> state_data \<Rightarrow> database option \<Rightarrow> database option" where
  "save_user_state user_id sd d =
     (case d of
        None \<Rightarrow> None
      | Some dd \<Rightarrow> Some (dd\<lparr>user_states := (user_states dd)(user_id \<mapsto> sd)\<rparr>))"

definition clear_user_state :: "int \<Rightarrow> database option \<Rightarrow> database option" where
  "clear_user_state user_id d =
     (case d of
        None \<Rightarrow> None
      | Some dd \<Rightarrow> Some (dd\<lparr>user_states := (user_states dd)(user_id := None)\<rparr>))"

text \<open>\<^verbatim>\<open>_save_user_data(user_id, {"last_active": now})\<close>, an upsert.\<close>

definition touch_last_active :: "int \<Rightarrow> datetime \<Rightarrow> database option \<Rightarrow> database option" where
  "touch_last_active user_id now d =
     (case d of
        None \<Rightarrow> None
      | Some dd \<Rightarrow>
          Some (dd\<lparr>users := (users dd)(user_id \<mapsto>
                  (case users dd user_id of
                     None \<Rightarrow> \<lparr>premium = [], last_active = Some now\<rparr>
                   | Some u \<Rightarrow> u\<lparr>last_active := Some now\<rparr>))\<rparr>))"

text \<open>
  \<^verbatim>\<open>is_premium_for_platform\<close>. It returns the answer and the store, in which a lapsed
  plan has been marked expired.
\<close>

definition is_premium_for_platform ::
  "int \<Rightarrow> datetime \<Rightarrow> int \<Rightarrow> string \<Rightarrow> database option \<Rightarrow> bool \<times> database option" where
  "is_premium_for_platform admin_id now user_id platform d =
     (if user_id = admin_id then (True, d)
      else case d of
        None \<Rightarrow> (False, d)
      | Some dd \<Rightarrow>
         (case users dd user_id of
            None \<Rightarrow> (False, d)
          | Some user \<Rightarrow>
             (case map_of (premium user) platform of
                None \<Rightarrow> (False, d)
              | Some pp \<Rightarrow>
                  if pp = empty_premium \<or> pr_status pp = Some ''expired'' then (False, d)
                  else if pr_type pp = Some ''lifetime'' then (True, d)
                  else (case pr_until pp of
                          None \<Rightarrow> (False, d)
                        | Some until \<Rightarrow>
                            if now < until then (True, d)
                            else if pr_type pp \<noteq> None \<and> pr_type pp \<noteq> Some []
                            then (False,
                                  Some (dd\<lparr>users := (users dd)(user_id \<mapsto>
                                    user\<lparr>premium := AList.update platform
                                      (pp\<lparr>pr_status := Some ''expired''\<rparr>) (premium user)\<rparr>)\<rparr>))
                            else (False, d)))))"


text \<open>
  \<^verbatim>\<open>get_user_settings\<close>, for the keys the pipeline reads: the stored document, or the
  defaults that \<^verbatim>\<open>setdefault\<close> fills in.
\<close>

definition default_settings :: user_settings where
  "default_settings =
     \<lparr>active_ig_username = None,
      watermark = \<lparr>wm_enabled = False, wm_type = Some ''text'', wm_text = [], wm_image_id = None\<rparr>\<rparr>"

definition get_user_settings :: "database option \<Rightarrow> int \<Rightarrow> user_settings" where
  "get_user_settings d user_id =
     (case d of
        None \<Rightarrow> default_settings
      | Some dd \<Rightarrow> (case settings dd user_id of None \<Rightarrow> default_settings | Some s \<Rightarrow> s))"

subsection \<open>The file system and \<^verbatim>\<open>cleanup_temp_files\<close>\<close>

text \<open>
  The file system is the set of paths that exist, together with the set \<open>rm_fails\<close> of
  paths for which \<^verbatim>\<open>os.remove\<close> raises. No file has the empty path. \<^verbatim>\<open>cleanup_temp_files\<close>
  skips a path that is None, empty or absent, and logs and goes on when \<^verbatim>\<open>os.remove\<close>
  raises.
\<close>

record filesystem =
  files :: "string set"
  rm_fails :: "string set"

definition fs_create :: "string \<Rightarrow> filesystem \<Rightarrow> filesystem" where
  "fs_create p f = (if p = [] then f else f\<lparr>files := insert p (files f)\<rparr>)"

definition os_remove :: "string \<Rightarrow> filesystem \<Rightarrow> py_error + filesystem" where
  "os_remove p f =
     (if p \<in> rm_fails f \<or> p \<notin> files f then Inl OtherException
      else Inr (f\<lparr>files := files f - {p}\<rparr>))"

fun cleanup_temp_files :: "string option list \<Rightarrow> filesystem \<Rightarrow> filesystem" where
  "cleanup_temp_files [] f = f"
| "cleanup_temp_files (file_path # files_to_delete) f =
     cleanup_temp_files files_to_delete
       (case file_path of
          None \<Rightarrow> f
        | Some p \<Rightarrow>
            if p \<noteq> [] \<and> p \<in> files f
            then (case os_remove p f of Inl e \<Rightarrow> f | Inr f' \<Rightarrow> f')
            else f)"

subsection \<open>ConcurrencyGate: the upload semaphore\<close>

text \<open>
  \<open>sems\<close> holds the value of every \<^verbatim>\<open>asyncio.Semaphore\<close> object created so far and
  \<open>upload_semaphore\<close> is the object the global variable names. A run that executes
  \<^verbatim>\<open>async with upload_semaphore\<close> reads the global once; \<open>holding\<close> and \<open>waiting\<close> pair each
  such run with the object it got. \<open>max_concurrent_uploads\<close> is the global setting.
\<close>

record gate =
  sems :: "nat list"
  upload_semaphore :: nat
  holding :: "(nat \<times> nat) list"
  waiting :: "(nat \<times> nat) list"
  max_concurrent_uploads :: int

text \<open>\<^verbatim>\<open>start_bot\<close>: \<^verbatim>\<open>upload_semaphore = asyncio.Semaphore(MAX_CONCURRENT_UPLOADS)\<close>.\<close>

definition gate_start :: "nat \<Rightarrow> gate" where
  "gate_start limit =
     \<lparr>sems = [limit], upload_semaphore = 0, holding = [], waiting = [],
      max_concurrent_uploads = int limit\<rparr>"

text \<open>
  Entering \<^verbatim>\<open>async with upload_semaphore\<close>: the run takes a permit of the current object
  when its value is positive and nobody waits on it, and queues on it otherwise.
\<close>

definition sem_enter :: "nat \<Rightarrow> gate \<Rightarrow> gate" where
  "sem_enter run g =
     (let a = upload_semaphore g
      in if a < length (sems g) \<and> 0 < sems g ! a \<and> a \<notin> snd ` set (waiting g)
         then g\<lparr>sems := (sems g)[a := sems g ! a - 1], holding := holding g @ [(run, a)]\<rparr>
         else g\<lparr>waiting := waiting g @ [(run, a)]\<rparr>)"

text \<open>
  Leaving the block releases the permit of the object the run acquired: the first run
  waiting on that object takes it over, or else the object's value goes up by one.
\<close>

definition sem_leave :: "nat \<Rightarrow> gate \<Rightarrow> gate" where
  "sem_leave run g =
     (case map_of (holding g) run of
        None \<Rightarrow> g
      | Some a \<Rightarrow>
         (let h' = remove1 (run, a) (holding g)
          in case find (\<lambda>(r, b). b = a) (waiting g) of
               None \<Rightarrow> g\<lparr>sems := (sems g)[a := sems g ! a + 1], holding := h'\<rparr>
             | Some (r, b) \<Rightarrow>
                 g\<lparr>holding := h' @ [(r, a)], waiting := remove1 (r, b) (waiting g)\<rparr>))"

text \<open>
  The branch \<^verbatim>\<open>action == "waiting_for_max_uploads"\<close> of \<^verbatim>\<open>handle_text_input\<close> for the
  admin, with \<open>new_limit\<close> the value of \<^verbatim>\<open>int(msg.text)\<close>: a limit that is not positive is
  refused; otherwise the setting is stored and the global is bound to a new semaphore
  \<^verbatim>\<open>asyncio.Semaphore(new_limit)\<close>.
\<close>

definition set_max_uploads :: "int \<Rightarrow> gate \<Rightarrow> gate" where
  "set_max_uploads new_limit g =
     (if new_limit \<le> 0 then g
      else g\<lparr>max_concurrent_uploads := new_limit,
             sems := sems g @ [nat new_limit],
             upload_semaphore := length (sems g)\<rparr>)"

datatype gate_op = Enter nat | Leave nat | SetMaxUploads int

fun gate_step :: "gate_op \<Rightarrow> gate \<Rightarrow> gate" where
  "gate_step (Enter r) g = sem_enter r g"
| "gate_step (Leave r) g = sem_leave r g"
| "gate_step (SetMaxUploads n) g = set_max_uploads n g"

definition gate_run :: "gate_op list \<Rightarrow> gate \<Rightarrow> gate" where
  "gate_run ops g = fold gate_step ops g"

text \<open>
  A gate operation is a reload when it is the admin's \<^verbatim>\<open>waiting_for_max_uploads\<close> message.
\<close>

definition is_reload :: "gate_op \<Rightarrow> bool" where
  "is_reload op = (case op of SetMaxUploads n \<Rightarrow> True | _ \<Rightarrow> False)"

text \<open>
  The state of a process that has never replaced its semaphore: the global is bound to the
  object made at startup, every run that holds or awaits a permit does so on that object,
  and the object's value and the permits held add up to the configured limit.
\<close>

definition gate_inv :: "nat \<Rightarrow> gate \<Rightarrow> bool" where
  "gate_inv limit g =
     (upload_semaphore g = 0 \<and> length (sems g) = 1
      \<and> sems g ! 0 + length (holding g) = limit
      \<and> snd ` set (holding g) \<subseteq> {0} \<and> snd ` set (waiting g) \<subseteq> {0}
      \<and> max_concurrent_uploads g = int limit)"

subsection \<open>The process state and the transport\<close>

text \<open>
  What the core sends through the transport client is recorded in \<open>outbox\<close>, in order.
  \<open>Reply u m t\<close> is a new message with id \<open>m\<close> in the chat of user \<open>u\<close>; \<open>EditMessage u m t\<close>
  edits message \<open>m\<close> there.
\<close>

datatype event =
    Reply int int string
  | EditMessage int int string

text \<open>What a task runs: the coroutines the core hands to the event loop.\<close>

datatype coro =
    TimeoutTask int int
  | MonitorProgress int int
  | ProcessAndUpload "int option" file_info int bool "nat option"
  | ScheduleBulkUploadTask

record world =
  db :: "database option"
  fsys :: filesystem
  outbox :: "event list"
  next_message_id :: int
  task_tracker :: tracker
  evloop :: "coro event_loop"
  upload_gate :: gate
  ADMIN_ID :: int
  MAX_FILE_SIZE_BYTES :: int
  utcnow :: datetime
  schedules_paused :: bool
  force_disable_watermark :: bool
  locked_users :: "int set"

definition msg_reply :: "int \<Rightarrow> string \<Rightarrow> world \<Rightarrow> int \<times> world" where
  "msg_reply chat t w =
     (next_message_id w,
      w\<lparr>outbox := outbox w @ [Reply chat (next_message_id w) t],
        next_message_id := next_message_id w + 1\<rparr>)"

definition edit_message :: "int \<Rightarrow> int \<Rightarrow> string \<Rightarrow> world \<Rightarrow> world" where
  "edit_message chat message_id t w = w\<lparr>outbox := outbox w @ [EditMessage chat message_id t]\<rparr>"


text \<open>
  \<^verbatim>\<open>_deferred_download_and_show_options\<close>. A missing \<^verbatim>\<open>'platform'\<close> key raises KeyError
  before anything is sent. Inside the \<^verbatim>\<open>try\<close>, a \<^verbatim>\<open>file_info\<close> without a file id raises
  when \<^verbatim>\<open>file_info['file_id']\<close> is read and handed to the transport, which ends in the
  \<^verbatim>\<open>except Exception\<close> branch. Otherwise the transport's \<^verbatim>\<open>download_media\<close> answers
  \<open>download\<close>: the exception it raised, or the path of the file it wrote, or None when
  it gave up without raising. \<open>after\<close> is an exception raised by the await that follows
  the download, if any. Sending and editing messages is taken to succeed.
\<close>

definition deferred_download_and_show_options ::
  "int \<Rightarrow> file_info \<Rightarrow> (py_error + string option) \<Rightarrow> py_error option \<Rightarrow> world
    \<Rightarrow> py_error + world" where
  "deferred_download_and_show_options user_id fi download after w =
     (case fi_platform fi of
        None \<Rightarrow> Inl KeyError
      | Some platform \<Rightarrow>
         (let w1 = w\<lparr>db := snd (is_premium_for_platform (ADMIN_ID w) (utcnow w) user_id platform (db w))\<rparr>;
              pm = msg_reply user_id ''Starting Download...'' w1;
              processing_msg = fst pm;
              mt = loop_create_task (MonitorProgress user_id processing_msg) (evloop (snd pm));
              monitor_task = fst mt;
              w2 = (snd pm)\<lparr>evloop := snd mt\<rparr>;
              w3 =
                (case (case fi_file_id fi of None \<Rightarrow> Inl KeyError | Some file_id \<Rightarrow> download) of
                   Inl e \<Rightarrow>
                     if e = CancelledError
                     then w2\<lparr>fsys := cleanup_temp_files [fi_downloaded_path fi] (fsys w2)\<rparr>
                     else (edit_message user_id processing_msg ''Download Failed'' w2)
                            \<lparr>fsys := cleanup_temp_files [fi_downloaded_path fi] (fsys w2),
                             db := clear_user_state user_id (db w2)\<rparr>
                 | Inr downloaded \<Rightarrow>
                    (let fi' = fi\<lparr>fi_downloaded_path := downloaded\<rparr>;
                         w2a = (case downloaded of
                                  None \<Rightarrow> w2
                                | Some path \<Rightarrow> w2\<lparr>fsys := fs_create path (fsys w2)\<rparr>)
                     in case after of
                          Some e \<Rightarrow>
                            if e = CancelledError
                            then w2a\<lparr>fsys := cleanup_temp_files [downloaded] (fsys w2a)\<rparr>
                            else (edit_message user_id processing_msg ''Download Failed'' w2a)
                                   \<lparr>fsys := cleanup_temp_files [downloaded] (fsys w2a),
                                    db := clear_user_state user_id (db w2a)\<rparr>
                        | None \<Rightarrow>
                           (let w2b = edit_message user_id processing_msg
                                        ''Media Ready. Choose Options Or Upload:'' w2a;
                                w2c = w2b\<lparr>db := save_user_state user_id
                                        (empty_state\<lparr>action := Some ''waiting_for_upload_options'',
                                                      sd_file_info := Some fi'\<rparr>) (db w2b)\<rparr>;
                                ct = create_task True (TimeoutTask user_id processing_msg)
                                       (Some user_id) (Some ''timeout'')
                                       (task_tracker w2c, evloop w2c)
                            in w2c\<lparr>task_tracker := fst (snd ct), evloop := snd (snd ct)\<rparr>)))
          in Inr (w3\<lparr>evloop := (if task_done (evloop w3) monitor_task then evloop w3
                                 else task_cancel monitor_task (evloop w3))\<rparr>)))"




subsection \<open>UploadStateMachine: the text and media handlers\<close>

text \<open>
  A handler returns the new process state, or raises with the state it had reached, or
  takes a branch outside the upload flows (login, settings, administration), which is
  not modelled.
\<close>

datatype handler_result =
    Returned world
  | Faulted py_error world
  | OtherFlow

text \<open>
  The decorator \<^verbatim>\<open>with_user_lock\<close>. \<open>locked_users\<close> is the set of users whose entry of
  \<^verbatim>\<open>user_upload_locks\<close> is held, that is, who have a decorated handler in progress. When
  the user's lock is held the event is answered and dropped; otherwise the handler runs
  under the lock and the lock is free again when it returns.
\<close>

definition with_user_lock :: "int \<Rightarrow> (world \<Rightarrow> handler_result) \<Rightarrow> world \<Rightarrow> handler_result" where
  "with_user_lock user_id handler w =
     (if user_id \<in> locked_users w
      then Returned (snd (msg_reply user_id ''Another Operation Is Already In Progress.'' w))
      else handler w)"

text \<open>\<^verbatim>\<open>str.split("----")\<close> and \<^verbatim>\<open>str.strip()\<close> on code points.\<close>

definition is_space :: "nat \<Rightarrow> bool" where
  "is_space c =
     (c \<in> set [9, 10, 11, 12, 13, 28, 29, 30, 31, 32, 133, 160, 5760, 8232, 8233, 8239, 8287, 12288]
      \<or> (8192 \<le> c \<and> c \<le> 8202))"

definition strip :: "pystr \<Rightarrow> pystr" where
  "strip s = rev (dropWhile is_space (rev (dropWhile is_space s)))"

function split_sep :: "pystr \<Rightarrow> pystr \<Rightarrow> pystr \<Rightarrow> pystr list" where
  "split_sep sep acc s =
     (if s = [] then [rev acc]
      else if sep \<noteq> [] \<and> take (length sep) s = sep
      then rev acc # split_sep sep [] (drop (length sep) s)
      else split_sep sep (hd s # acc) (tl s))"
  by pat_completeness auto
termination
  by (relation "measure (\<lambda>(sep, acc, s). length s)") auto

definition DASHES :: pystr where
  "DASHES = [45, 45, 45, 45]"

definition list_or_empty :: "'a list option \<Rightarrow> 'a list" where
  "list_or_empty xs = (case xs of None \<Rightarrow> [] | Some ys \<Rightarrow> ys)"

definition file_info_or_empty :: "file_info option \<Rightarrow> file_info" where
  "file_info_or_empty x = (case x of None \<Rightarrow> empty_file_info | Some fi \<Rightarrow> fi)"

text \<open>
  \<^verbatim>\<open>handle_text_input\<close>, the three caption branches. \<open>download\<close> and \<open>after\<close> are what the
  transport answers in \<^verbatim>\<open>_deferred_download_and_show_options\<close>.
\<close>

definition handle_text_input ::
  "int \<Rightarrow> pystr \<Rightarrow> (py_error + string option) \<Rightarrow> py_error option \<Rightarrow> world
    \<Rightarrow> handler_result" where
  "handle_text_input user_id msg_text download after w =
     (let state_data = get_user_state (db w) user_id;
          w0 = w\<lparr>db := touch_last_active user_id (utcnow w) (db w)\<rparr>
      in if state_data = empty_state
         then Returned (snd (msg_reply user_id ''I Don't Understand That Command.'' w0))
         else if action state_data = Some ''waiting_for_caption''
         then
           (let fi = file_info_or_empty (sd_file_info state_data)
            in case fi_platform fi of
                 None \<Rightarrow> Faulted KeyError w0
               | Some platform \<Rightarrow>
                  (let pr = is_premium_for_platform (ADMIN_ID w0) (utcnow w0) user_id platform (db w0);
                       is_premium = fst pr;
                       w1 = w0\<lparr>db := snd pr\<rparr>
                   in if \<not> is_premium \<and> 280 < length msg_text
                      then Returned (snd (msg_reply user_id
                             ''For Free Accounts, The Caption Limit Is 280 Characters.'' w1))
                      else
                        (let fi' = fi\<lparr>fi_custom_caption := Some msg_text\<rparr>;
                             w2 = w1\<lparr>db := save_user_state user_id
                                          (state_data\<lparr>sd_file_info := Some fi'\<rparr>) (db w1)\<rparr>
                         in case deferred_download_and_show_options user_id fi' download after w2 of
                              Inl e \<Rightarrow> Faulted e w2
                            | Inr w3 \<Rightarrow> Returned w3)))
         else if action state_data = Some ''waiting_for_bulk_single_caption''
         then
           (let media_count = length (list_or_empty (media_file_ids state_data));
                captions = replicate media_count (Some msg_text);
                w1 = w0\<lparr>db := save_user_state user_id
                             (state_data\<lparr>bulk_captions := Some captions,
                                         action := Some ''waiting_for_schedule_options''\<rparr>) (db w0)\<rparr>
            in Returned (snd (msg_reply user_id
                 ''Caption Set For All Posts. Now, Select A Scheduling Option.'' w1)))
         else if action state_data = Some ''waiting_for_bulk_individual_captions''
         then
           (let captions = map strip (split_sep DASHES [] msg_text)
            in if length captions \<noteq> length (list_or_empty (media_file_ids state_data))
               then Returned (snd (msg_reply user_id
                      ''Please Send The Same Number Of Captions Separated By ----.'' w0))
               else
                 (let w1 = w0\<lparr>db := save_user_state user_id
                               (state_data\<lparr>bulk_captions := Some (map Some captions),
                                           action := Some ''waiting_for_schedule_options''\<rparr>) (db w0)\<rparr>
                  in Returned (snd (msg_reply user_id
                       ''All Captions Received. Now, Select A Scheduling Option.'' w1))))
         else OtherFlow)"

record media =
  m_file_id :: string
  m_file_size :: int





text \<open>
  The handlers as the transport calls them: \<^verbatim>\<open>handle_text_input\<close> and
  \<^verbatim>\<open>handle_media_upload\<close> are registered under \<^verbatim>\<open>@with_user_lock\<close>.
\<close>

definition on_text_message ::
  "int \<Rightarrow> pystr \<Rightarrow> (py_error + string option) \<Rightarrow> py_error option \<Rightarrow> world
    \<Rightarrow> handler_result" where
  "on_text_message user_id msg_text download after w =
     with_user_lock user_id (handle_text_input user_id msg_text download after) w"


text \<open>The process state after \<^verbatim>\<open>start_bot\<close> has connected to an empty store.\<close>

definition start_world :: "int \<Rightarrow> nat \<Rightarrow> int \<Rightarrow> world" where
  "start_world admin_id limit max_file_size_mb =
     \<lparr>db = Some \<lparr>users = Map.empty, user_states = Map.empty, settings = Map.empty,
                  schedules = [], uploads = []\<rparr>,
      fsys = \<lparr>files = {}, rm_fails = {}\<rparr>,
      outbox = [],
      next_message_id = 1,
      task_tracker = tracker_init\<lparr>loop_set := True\<rparr>,
      evloop = loop_init,
      upload_gate = gate_start limit,
      ADMIN_ID = admin_id,
      MAX_FILE_SIZE_BYTES = max_file_size_mb * 1024 * 1024,
      utcnow = 0,
      schedules_paused = False,
      force_disable_watermark = False,
      locked_users = {}\<rparr>"

text \<open>
  Notions used to state and prove the registry's properties. A task is \<open>settled\<close> when it is
  done or its cancellation has been requested. \<open>loop_grows\<close> relates two states of the
  event loop when the later one keeps every task and every settled flag of the earlier
  one and allocates new handles only from \<open>next_handle\<close> on. \<open>reg_inv\<close> is the registry's
  invariant: handles are fresh, registered handles exist, and a task spawned under a key
  is the one registered under that key unless it is settled.
\<close>

definition settled :: "'c event_loop \<Rightarrow> nat \<Rightarrow> bool" where
  "settled l h = (task_done l h \<or> task_cancel_requested l h)"

definition loop_grows :: "'c event_loop \<Rightarrow> 'c event_loop \<Rightarrow> bool" where
  "loop_grows l l' =
     (next_handle l \<le> next_handle l'
      \<and> (\<forall>h. task_table l h \<noteq> None \<longrightarrow> task_table l' h \<noteq> None)
      \<and> (\<forall>h. task_table l h \<noteq> None \<longrightarrow> settled l h \<longrightarrow> settled l' h)
      \<and> (\<forall>h. task_table l' h \<noteq> None \<longrightarrow>
            task_table l h \<noteq> None \<or> (next_handle l \<le> h \<and> h < next_handle l')))"

definition reg_inv :: "'c registry \<Rightarrow> bool" where
  "reg_inv s =
     (case s of (tt, l, spawned) \<Rightarrow>
        (\<forall>h. task_table l h \<noteq> None \<longrightarrow> h < next_handle l)
        \<and> (\<forall>u n h. registered tt u n = Some h \<longrightarrow> task_table l h \<noteq> None)
        \<and> (\<forall>k h. (k, h) \<in> set spawned \<longrightarrow>
              task_table l h \<noteq> None \<and> (registered tt (fst k) (snd k) = Some h \<or> settled l h)))"

subsection \<open>SchedulerDaemon: one poll cycle of \<^verbatim>\<open>schedule_bulk_upload_task\<close>\<close>

text \<open>
  \<^verbatim>\<open>db.schedules.find({"run_at": {"$lte": now}, "status": "pending"})\<close> and
  \<^verbatim>\<open>db.schedules.update_one({"_id": id}, {"$set": {"status": s}})\<close>. The update is
  selected by \<^verbatim>\<open>_id\<close> alone; it returns the number of documents it matched, which the
  daemon does not read.
\<close>

definition find_due :: "datetime \<Rightarrow> (nat \<times> schedule_entry) list \<Rightarrow> (nat \<times> schedule_entry) list" where
  "find_due now scheds = filter (\<lambda>(i, e). se_run_at e \<le> now \<and> se_status e = ''pending'') scheds"

fun set_status :: "nat \<Rightarrow> string \<Rightarrow> (nat \<times> schedule_entry) list \<Rightarrow> (nat \<times> schedule_entry) list" where
  "set_status sid s [] = []"
| "set_status sid s ((i, e) # rest) =
     (if i = sid then (i, e\<lparr>se_status := s\<rparr>) # rest else (i, e) # set_status sid s rest)"

definition update_one_status ::
  "nat \<Rightarrow> string \<Rightarrow> (nat \<times> schedule_entry) list \<Rightarrow> nat \<times> (nat \<times> schedule_entry) list" where
  "update_one_status sid s scheds =
     (if sid \<in> fst ` set scheds then 1 else 0, set_status sid s scheds)"

definition status_of :: "database option \<Rightarrow> nat \<Rightarrow> string option" where
  "status_of d sid =
     (case d of None \<Rightarrow> None | Some dd \<Rightarrow> map_option se_status (map_of (schedules dd) sid))"

text \<open>The decimal rendering of an \<^verbatim>\<open>_id\<close> in the task name \<^verbatim>\<open>scheduled_upload_<id>\<close>.\<close>

fun digits :: "nat \<Rightarrow> nat \<Rightarrow> string" where
  "digits 0 n = []"
| "digits (Suc fuel) n =
     (if n < 10 then [char_of (48 + n)] else digits fuel (n div 10) @ [char_of (48 + n mod 10)])"

definition scheduled_task_name :: "nat \<Rightarrow> string" where
  "scheduled_task_name sid = ''scheduled_upload_'' @ digits (Suc sid) sid"

definition schedule_file_info :: "schedule_entry \<Rightarrow> file_info" where
  "schedule_file_info e =
     \<lparr>fi_platform = Some (se_platform e), fi_upload_type = Some (se_upload_type e),
      fi_file_id = se_file_id e, fi_original_media_msg_id = se_media_msg_id e,
      fi_usertags = [], fi_location = None, fi_custom_caption = se_caption e,
      fi_downloaded_path = None, fi_media_file_ids = None\<rparr>"

text \<open>
  The body of the \<^verbatim>\<open>for schedule in schedules_list\<close> loop: the claim, then the spawn of
  the pipeline for the entry.
\<close>

definition dispatch :: "nat \<times> schedule_entry \<Rightarrow> world \<Rightarrow> world" where
  "dispatch se w =
     (case se of (sid, e) \<Rightarrow>
        (let w1 = w\<lparr>db := (case db w of
                              None \<Rightarrow> None
                            | Some dd \<Rightarrow>
                                Some (dd\<lparr>schedules :=
                                  snd (update_one_status sid ''processing'' (schedules dd))\<rparr>))\<rparr>;
             ct = create_task True
                    (ProcessAndUpload None (schedule_file_info e) (se_user_id e) True (Some sid))
                    (Some (se_user_id e)) (Some (scheduled_task_name sid))
                    (task_tracker w1, evloop w1)
         in w1\<lparr>task_tracker := fst (snd ct), evloop := snd (snd ct)\<rparr>))"

definition dispatch_all :: "(nat \<times> schedule_entry) list \<Rightarrow> world \<Rightarrow> world" where
  "dispatch_all snapshot w = fold dispatch snapshot w"

text \<open>
  One iteration of the \<^verbatim>\<open>while\<close> loop before its sleep. With the store down the query
  raises, and the daemon logs the error.
\<close>

definition poll_cycle :: "world \<Rightarrow> world" where
  "poll_cycle w =
     (if schedules_paused w then w
      else case db w of
        None \<Rightarrow> w
      | Some dd \<Rightarrow> dispatch_all (find_due (utcnow w) (schedules dd)) w)"

text \<open>The pipeline runs that the event loop holds for a schedule entry.\<close>

definition is_run_of :: "nat \<Rightarrow> coro \<Rightarrow> bool" where
  "is_run_of sid c =
     (case c of ProcessAndUpload m fi u s i \<Rightarrow> i = Some sid | _ \<Rightarrow> False)"

definition runs_of :: "coro event_loop \<Rightarrow> nat \<Rightarrow> nat list" where
  "runs_of l sid =
     filter (\<lambda>h. case task_table l h of None \<Rightarrow> False | Some t \<Rightarrow> is_run_of sid (coro t))
       [0..<next_handle l]"

subsection \<open>Example states\<close>

text \<open>Concrete states and messages at which the properties of Part II are evaluated.\<close>

definition bulk_world :: world where
  "bulk_world = (start_world 1 15 250)
     \<lparr>db := save_user_state 7
        (empty_state\<lparr>action := Some ''waiting_for_bulk_single_caption'',
                      sd_platform := Some ''instagram'', sd_upload_type := Some ''bulk_reel'',
                      media_file_ids := Some [''f1'']\<rparr>)
        (db (start_world 1 15 250))\<rparr>"

definition caption_world :: world where
  "caption_world = (start_world 1 15 250)
     \<lparr>db := save_user_state 7
        (empty_state\<lparr>action := Some ''waiting_for_caption'',
                      sd_file_info := Some (empty_file_info\<lparr>fi_platform := Some ''instagram''\<rparr>)\<rparr>)
        (db (start_world 1 15 250))\<rparr>"



definition same_coros :: "coro event_loop \<Rightarrow> coro event_loop \<Rightarrow> bool" where
  "same_coros l l2 =
     (next_handle l2 = next_handle l
      \<and> (\<forall>h. map_option coro (task_table l2 h) = map_option coro (task_table l h)))"

definition due_ids :: "datetime \<Rightarrow> world \<Rightarrow> nat set" where
  "due_ids now w = (case db w of None \<Rightarrow> {} | Some dd \<Rightarrow> fst ` set (find_due now (schedules dd)))"

definition sched_world :: world where
  "sched_world = (start_world 1 15 250)
     \<lparr>db := Some \<lparr>users = Map.empty, user_states = Map.empty, settings = Map.empty,
                   schedules = [(0, \<lparr>se_user_id = 7, se_platform = ''instagram'',
                                     se_upload_type = ''bulk_reel'', se_file_id = Some ''f1'',
                                     se_media_msg_id = Some 11, se_caption = None, se_run_at = 0,
                                     se_status = ''pending'', se_completed_at = None\<rparr>)],
                   uploads = []\<rparr>\<rparr>"

section \<open>Part II: the properties\<close>

subsection \<open>BulkScheduleComputer\<close>

lemma round_half_even_div_nonneg:
  assumes "0 \<le> a" and "0 < b"
  shows "0 \<le> round_half_even_div a b"
proof -
  have "0 \<le> a div b" using assms by (simp add: pos_imp_zdiv_nonneg_iff)
  then show ?thesis by (simp add: round_half_even_div_def Let_def)
qed

lemma time_of_day_bounds:
  assumes "0 \<le> h" "h < 24" "0 \<le> m" "m < 60"
  shows "0 \<le> time_of_day h m \<and> time_of_day h m < US_PER_DAY"
proof -
  have "0 \<le> h * 60 + m" using assms by simp
  moreover have "h * 60 + m < 1440" using assms by simp
  ultimately show ?thesis by (simp add: time_of_day_def US_PER_MINUTE_def US_PER_DAY_def)
qed

lemma day_offset_mod:
  assumes "0 \<le> r" "r < US_PER_DAY"
  shows "(d * US_PER_DAY + r) mod US_PER_DAY = r"
  using assms by (simp add: mod_pos_pos_trivial)

lemma between_same_day:
  assumes "d * US_PER_DAY + lo \<le> t" "t \<le> d * US_PER_DAY + hi" "0 \<le> lo" "hi < US_PER_DAY"
  shows "lo \<le> t mod US_PER_DAY \<and> t mod US_PER_DAY \<le> hi"
proof -
  define r where "r = t - d * US_PER_DAY"
  have r: "0 \<le> r" "r < US_PER_DAY" "lo \<le> r" "r \<le> hi" using assms by (auto simp: r_def)
  have "t = d * US_PER_DAY + r" by (simp add: r_def)
  then have "t mod US_PER_DAY = r" using day_offset_mod[OF r(1,2)] by simp
  then show ?thesis using r by simp
qed

lemma next_day_start_gt:
  assumes "0 \<le> r"
  shows "t < ((t + US_PER_DAY) div US_PER_DAY) * US_PER_DAY + r"
proof -
  define q where "q = t div US_PER_DAY"
  define m where "m = t mod US_PER_DAY"
  have pos: "0 < US_PER_DAY" by (simp add: US_PER_DAY_def)
  have t: "t = q * US_PER_DAY + m" by (simp add: q_def m_def)
  have m: "m < US_PER_DAY" using pos by (simp add: m_def)
  have "(t + US_PER_DAY) div US_PER_DAY = q + 1"
    using pos div_add_self2[of US_PER_DAY t] by (simp add: q_def)
  then have "((t + US_PER_DAY) div US_PER_DAY) * US_PER_DAY + r = q * US_PER_DAY + US_PER_DAY + r"
    by (simp add: algebra_simps)
  then show ?thesis using t m assms by linarith
qed

lemma in_window_to_utc:
  "in_window sh sm eh em (to_utc t) =
     (time_of_day sh sm \<le> t mod US_PER_DAY \<and> t mod US_PER_DAY \<le> time_of_day eh em)"
  by (simp add: in_window_def to_utc_def to_ist_def Let_def)

lemma window_loop_props:
  assumes iv: "0 \<le> iv"
    and vw: "valid_window sh sm eh em"
    and s: "s = d * US_PER_DAY + time_of_day sh sm"
    and e: "e = d * US_PER_DAY + time_of_day eh em"
    and cur: "s \<le> cur"
    and caps: "i + k \<le> length caps"
  shows "\<exists>ps. window_loop k i caps cur e sh sm iv = Inr ps \<and> length ps = k
            \<and> sorted (map run_at ps)
            \<and> (\<forall>p\<in>set ps. to_utc cur \<le> run_at p \<and> in_window sh sm eh em (run_at p))"
  using cur caps
proof (induction k arbitrary: i cur)
  case 0
  then show ?case by simp
next
  case (Suc k)
  have sb: "0 \<le> time_of_day sh sm" "time_of_day sh sm < US_PER_DAY"
    and eb: "0 \<le> time_of_day eh em" "time_of_day eh em < US_PER_DAY"
    and se: "time_of_day sh sm < time_of_day eh em"
    and rng: "0 \<le> sh \<and> sh < 24 \<and> 0 \<le> sm \<and> sm < 60"
    using vw time_of_day_bounds[of sh sm] time_of_day_bounds[of eh em]
    by (auto simp: valid_window_def)
  define cur' where "cur' = (if e < cur then ((cur + US_PER_DAY) div US_PER_DAY) * US_PER_DAY + time_of_day sh sm else cur)"
  have step: "(if e < cur then replace_hm (cur + US_PER_DAY) sh sm else Inr cur) = Inr cur'"
    using rng by (simp add: cur'_def replace_hm_def)
  have ge: "cur \<le> cur'"
    using next_day_start_gt[OF sb(1), of cur] by (simp add: cur'_def)
  have inw: "in_window sh sm eh em (to_utc cur')"
  proof (cases "e < cur")
    case True
    then have "cur' mod US_PER_DAY = time_of_day sh sm"
      using day_offset_mod[OF sb] by (simp add: cur'_def)
    then show ?thesis using se by (simp add: in_window_to_utc)
  next
    case False
    then have "d * US_PER_DAY + time_of_day sh sm \<le> cur'" "cur' \<le> d * US_PER_DAY + time_of_day eh em"
      using Suc.prems s e by (auto simp: cur'_def)
    from between_same_day[OF this sb(1) eb(2)] show ?thesis by (simp add: in_window_to_utc)
  qed
  have "s \<le> cur' + iv" using Suc.prems ge iv by simp
  moreover have "Suc i + k \<le> length caps" using Suc.prems by simp
  ultimately obtain ps where ps: "window_loop k (Suc i) caps (cur' + iv) e sh sm iv = Inr ps"
      "length ps = k" "sorted (map run_at ps)"
      "\<forall>p\<in>set ps. to_utc (cur' + iv) \<le> run_at p \<and> in_window sh sm eh em (run_at p)"
    using Suc.IH by blast
  have ilt: "i < length caps" using Suc.prems by simp
  have res: "window_loop (Suc k) i caps cur e sh sm iv = Inr (\<lparr>run_at = to_utc cur', caption = caps ! i\<rparr> # ps)"
    using step ps(1) ilt by simp
  have le: "\<forall>p\<in>set ps. to_utc cur' \<le> run_at p"
    using ps(4) iv by (auto simp: to_utc_def)
  have "sorted (map run_at (\<lparr>run_at = to_utc cur', caption = caps ! i\<rparr> # ps))"
    using ps(3) le by simp
  moreover have "\<forall>p\<in>set (\<lparr>run_at = to_utc cur', caption = caps ! i\<rparr> # ps).
       to_utc cur \<le> run_at p \<and> in_window sh sm eh em (run_at p)"
    using le ps(4) ge inw by (auto simp: to_utc_def)
  ultimately show ?case using res ps(2) by simp
qed

text \<open>
  When the state holds a caption entry for each item, as the three caption steps leave
  it, the window branch schedules: for \<open>n \<ge> 1\<close> items and a valid window the handler
  returns exactly \<open>n\<close> posts, their \<open>run_at\<close> timestamps are non-decreasing, and each one,
  read in local time, lies between the window's start and end time of its own calendar
  day.
\<close>

theorem schedule_window_ok:
  assumes "1 \<le> n" and "valid_window sh sm eh em" and "n \<le> length caps"
  shows "\<exists>ps. schedule_window now_ist n caps sh sm eh em = Scheduled ps
           \<and> length ps = n
           \<and> sorted (map run_at ps)
           \<and> (\<forall>p\<in>set ps. in_window sh sm eh em (run_at p))"
proof -
  define d where "d = now_ist div US_PER_DAY"
  define s where "s = d * US_PER_DAY + time_of_day sh sm"
  define e where "e = d * US_PER_DAY + time_of_day eh em"
  have rs: "replace_hm now_ist sh sm = Inr s" and re: "replace_hm now_ist eh em = Inr e"
    using assms(2) by (simp_all add: replace_hm_def valid_window_def s_def e_def d_def)
  have tot: "0 < e - s" using assms(2) by (simp add: valid_window_def s_def e_def)
  define iv where "iv = round_half_even_div (e - s) (int n)"
  have iv: "0 \<le> iv" unfolding iv_def
    using round_half_even_div_nonneg[of "e - s" "int n"] tot assms(1) by simp
  define cur where "cur = (if s < now_ist then now_ist else s)"
  have "s \<le> cur" by (simp add: cur_def)
  moreover have "0 + n \<le> length caps" using assms(3) by simp
  ultimately obtain ps where ps: "window_loop n 0 caps cur e sh sm iv = Inr ps" "length ps = n"
      "sorted (map run_at ps)" "\<forall>p\<in>set ps. to_utc cur \<le> run_at p \<and> in_window sh sm eh em (run_at p)"
    using window_loop_props[OF iv assms(2) s_def e_def] by blast
  have "schedule_window now_ist n caps sh sm eh em = Scheduled ps"
    using assms(1) rs re tot ps(1)
    by (simp add: schedule_window_def Let_def iv_def cur_def)
  then show ?thesis using ps by blast
qed

theorem schedule_window_ok_witness:
  "1 \<le> (3::nat) \<and> valid_window 6 0 9 0 \<and> 3 \<le> length [None, None, None :: pystr option]
   \<and> (\<exists>ps. schedule_window (5 * US_PER_DAY + time_of_day 8 30) 3 [None, None, None] 6 0 9 0
             = Scheduled ps
          \<and> length ps = 3 \<and> sorted (map run_at ps)
          \<and> (\<forall>p\<in>set ps. in_window 6 0 9 0 (run_at p)))"
  using schedule_window_ok [of 3 6 0 9 0 "[None, None, None]" "5 * US_PER_DAY + time_of_day 8 30"]
  by (simp add: valid_window_def time_of_day_def US_PER_MINUTE_def)

text \<open>
  Claim C5 (every item count \<open>N \<ge> 1\<close> and every valid window give exactly \<open>N\<close>
  non-decreasing timestamps inside the window) fails on the code where the state holds no
  \<^verbatim>\<open>bulk_captions\<close>: \<^verbatim>\<open>schedule_preset_cb\<close> checks only that the media count is not zero
  and reads \<^verbatim>\<open>state_data.get('bulk_captions', [None])[i]\<close>, whose default has one element.
  With two items and the window 06:00 to 09:00 the second iteration raises IndexError and
  no schedule is computed; with one item the default is enough.
\<close>

theorem schedule_window_missing_captions:
  "valid_window 6 0 9 0
   \<and> schedule_window (5 * US_PER_DAY + time_of_day 7 0) 2 [None] 6 0 9 0 = Raised IndexError
   \<and> schedule_window (5 * US_PER_DAY + time_of_day 7 0) 1 [None] 6 0 9 0 =
        Scheduled [\<lparr>run_at = to_utc (5 * US_PER_DAY + time_of_day 7 0), caption = None\<rparr>]"
  by (simp add: schedule_window_def replace_hm_def Let_def time_of_day_def US_PER_MINUTE_def
      US_PER_DAY_def round_half_even_div_def valid_window_def numeral_2_eq_2)

text \<open>
  Claim C6. Window 06:00 to 09:00, three items, now = 07:00 local on any day \<open>d\<close>: the
  posts are scheduled at 07:00, 08:00 and 09:00 local of day \<open>d\<close>. The cursor starts at now
  because now is after the window start, and the interval is the window span divided by
  three, one hour.
\<close>

theorem schedule_window_scenario:
  "schedule_window (d * US_PER_DAY + time_of_day 7 0) 3 [c0, c1, c2] 6 0 9 0 =
     Scheduled [\<lparr>run_at = to_utc (d * US_PER_DAY + time_of_day 7 0), caption = c0\<rparr>,
                \<lparr>run_at = to_utc (d * US_PER_DAY + time_of_day 8 0), caption = c1\<rparr>,
                \<lparr>run_at = to_utc (d * US_PER_DAY + time_of_day 9 0), caption = c2\<rparr>]
   \<and> d * US_PER_DAY + time_of_day 6 0 < d * US_PER_DAY + time_of_day 7 0
   \<and> round_half_even_div (time_of_day 9 0 - time_of_day 6 0) 3 = time_of_day 1 0"
  by (simp add: schedule_window_def replace_hm_def Let_def time_of_day_def US_PER_MINUTE_def
      US_PER_DAY_def round_half_even_div_def numeral_3_eq_3 to_utc_def)

subsection \<open>TaskRegistry\<close>

lemma loop_grows_refl: "loop_grows l l"
  by (simp add: loop_grows_def)

lemma loop_grows_trans:
  assumes "loop_grows a b" and "loop_grows b c"
  shows "loop_grows a c"
proof -
  have "next_handle a \<le> next_handle c" using assms by (simp add: loop_grows_def)
  moreover have "\<forall>h. task_table a h \<noteq> None \<longrightarrow> task_table c h \<noteq> None"
    using assms by (simp add: loop_grows_def)
  moreover have "\<forall>h. task_table a h \<noteq> None \<longrightarrow> settled a h \<longrightarrow> settled c h"
    using assms by (simp add: loop_grows_def)
  moreover have "\<forall>h. task_table c h \<noteq> None \<longrightarrow>
      task_table a h \<noteq> None \<or> (next_handle a \<le> h \<and> h < next_handle c)"
  proof (intro allI impI)
    fix h assume "task_table c h \<noteq> None"
    then consider "task_table b h \<noteq> None" | "next_handle b \<le> h" "h < next_handle c"
      using assms(2) unfolding loop_grows_def by blast
    then show "task_table a h \<noteq> None \<or> (next_handle a \<le> h \<and> h < next_handle c)"
    proof cases
      case 1
      then have "task_table a h \<noteq> None \<or> (next_handle a \<le> h \<and> h < next_handle b)"
        using assms(1) unfolding loop_grows_def by blast
      moreover have "next_handle b \<le> next_handle c" using assms(2) by (simp add: loop_grows_def)
      ultimately show ?thesis by auto
    next
      case 2
      moreover have "next_handle a \<le> next_handle b" using assms(1) by (simp add: loop_grows_def)
      ultimately show ?thesis by auto
    qed
  qed
  ultimately show ?thesis unfolding loop_grows_def by blast
qed

lemma task_cancel_grows: "loop_grows l (task_cancel h l)"
  by (auto simp: loop_grows_def task_cancel_def settled_def task_done_def
      task_cancel_requested_def split: option.splits)

lemma task_cancel_settles: "settled (task_cancel h l) h"
  by (auto simp: task_cancel_def settled_def task_done_def task_cancel_requested_def
      split: option.splits)

lemma registered_cancel_user_task:
  "registered (fst (cancel_user_task u n (tt, l))) u' n' =
     (if u' = u \<and> n' = n then None else registered tt u' n')"
proof (cases "map_of (user_specific_tasks tt) u")
  case None
  then show ?thesis by (auto simp: cancel_user_task_def registered_def)
next
  case (Some m)
  show ?thesis
  proof (cases "map_of m n")
    case None
    with Some show ?thesis by (auto simp: cancel_user_task_def registered_def)
  next
    case (Some h)
    note m = \<open>map_of (user_specific_tasks tt) u = Some m\<close>
    show ?thesis
    proof (cases "AList.delete n m = []")
      case True
      then have "map_of m n' = (if n' = n then map_of m n' else None)"
        by (metis map_of_delete map_of.simps(1))
      with m Some True show ?thesis
        by (auto simp: cancel_user_task_def registered_def Let_def delete_conv')
    next
      case False
      with m Some show ?thesis
        by (auto simp: cancel_user_task_def registered_def Let_def update_conv' delete_conv')
    qed
  qed
qed

lemma loop_cancel_user_task: "loop_grows l (snd (cancel_user_task u n (tt, l)))"
  by (auto simp: cancel_user_task_def Let_def task_cancel_grows loop_grows_refl
      split: option.splits)

lemma cancel_user_task_settles:
  "registered tt u n = Some h \<Longrightarrow> settled (snd (cancel_user_task u n (tt, l))) h"
  using task_cancel_settles[of h l]
  by (auto simp: cancel_user_task_def Let_def registered_def settled_def split: option.splits)

lemma registered_register_task:
  assumes "user_specific_tasks tt' = register_task u n h (user_specific_tasks tt)"
  shows "registered tt' u' n' = (if u' = u \<and> n' = n then Some h else registered tt u' n')"
  using assms by (auto simp: registered_def register_task_def update_conv' split: option.splits)

lemma loop_create_task_grows: "task_table l (next_handle l) = None \<Longrightarrow> loop_grows l (snd (loop_create_task c l))"
  by (auto simp: loop_grows_def loop_create_task_def settled_def task_done_def task_cancel_requested_def)

lemma reg_inv_init: "reg_inv registry_init"
  by (simp add: reg_inv_def registry_init_def tracker_init_def loop_init_def registered_def)

lemma registered_tasks_upd [simp]: "registered (tt\<lparr>tasks := X\<rparr>) u n = registered tt u n"
  by (simp add: registered_def)

lemma registered_loop_set_upd [simp]: "registered (tt\<lparr>loop_set := X\<rparr>) u n = registered tt u n"
  by (simp add: registered_def)

lemma fold_task_cancel_grows: "loop_grows l (fold (\<lambda>(task_name, task). task_cancel task) xs l)"
proof (induction xs arbitrary: l)
  case Nil
  show ?case by (simp add: loop_grows_refl)
next
  case (Cons x xs)
  obtain n h where x: "x = (n, h)" by (cases x)
  show ?case using loop_grows_trans[OF task_cancel_grows[of l h] Cons.IH[of "task_cancel h l"]]
    by (simp add: x)
qed

lemma fold_task_cancel_settles:
  assumes "(n, h) \<in> set xs" and "task_table l h \<noteq> None"
  shows "settled (fold (\<lambda>(task_name, task). task_cancel task) xs l) h"
  using assms
proof (induction xs arbitrary: l)
  case Nil
  then show ?case by simp
next
  case (Cons x xs)
  obtain n' h' where x: "x = (n', h')" by (cases x)
  have tbl: "task_table (task_cancel h' l) h \<noteq> None"
    using Cons.prems(2) task_cancel_grows[of l h'] by (simp add: loop_grows_def)
  show ?case
  proof (cases "(n, h) \<in> set xs")
    case True
    from Cons.IH[OF True tbl] show ?thesis by (simp add: x)
  next
    case False
    then have "h' = h" using Cons.prems(1) x by auto
    then have "settled (task_cancel h' l) h" using task_cancel_settles[of h l] by simp
    moreover have "loop_grows (task_cancel h' l) (fold (\<lambda>(task_name, task). task_cancel task) xs (task_cancel h' l))"
      by (rule fold_task_cancel_grows)
    ultimately show ?thesis using tbl by (simp add: x loop_grows_def)
  qed
qed

lemma task_cancel_same_dom:
  "next_handle (task_cancel h l) = next_handle l"
  "(task_table (task_cancel h l) x = None) = (task_table l x = None)"
  by (auto simp: task_cancel_def split: option.splits)

lemma cancel_user_task_same_dom:
  "next_handle (snd (cancel_user_task u n (tt, l))) = next_handle l"
  "(task_table (snd (cancel_user_task u n (tt, l))) x = None) = (task_table l x = None)"
  by (auto simp: cancel_user_task_def Let_def task_cancel_same_dom split: option.splits)

lemma create_task_none:
  "\<not> loop_set tt \<Longrightarrow> \<not> running \<Longrightarrow> create_task running c uo no (tt, l) = (None, tt, l)"
  by (simp add: create_task_def)

lemma create_task_unkeyed:
  assumes "loop_set tt \<or> running" and "task_key uo no = None"
  shows "create_task running c uo no (tt, l) =
           (Some (next_handle l),
            tt\<lparr>loop_set := True, tasks := insert (next_handle l) (tasks tt)\<rparr>,
            snd (loop_create_task c l))"
  using assms by (auto simp: create_task_def Let_def loop_create_task_def)

lemma create_task_keyed:
  assumes "loop_set tt \<or> running" and "task_key uo no = Some (u, n)"
  shows "\<exists>tt'. create_task running c uo no (tt, l) =
           (Some (next_handle l), tt',
            snd (loop_create_task c (snd (cancel_user_task u n (tt\<lparr>loop_set := True\<rparr>, l)))))
           \<and> (\<forall>u' n'. registered tt' u' n' =
                 (if u' = u \<and> n' = n then Some (next_handle l) else registered tt u' n'))"
proof -
  let ?s2 = "cancel_user_task u n (tt\<lparr>loop_set := True\<rparr>, l)"
  let ?h = "next_handle l"
  let ?tt' = "(fst ?s2)\<lparr>tasks := insert ?h (tasks (fst ?s2)),
      user_specific_tasks := register_task u n ?h (user_specific_tasks (fst ?s2))\<rparr>"
  have nh: "fst (loop_create_task c (snd ?s2)) = ?h"
    by (simp add: loop_create_task_def cancel_user_task_same_dom)
  have reg2: "\<And>u' n'. registered (fst ?s2) u' n' =
      (if u' = u \<and> n' = n then None else registered tt u' n')"
    using registered_cancel_user_task[of u n "tt\<lparr>loop_set := True\<rparr>" l] by simp
  have ct: "create_task running c uo no (tt, l) = (Some ?h, ?tt', snd (loop_create_task c (snd ?s2)))"
    using assms nh by (simp add: create_task_def Let_def)
  have "\<And>u' n'. registered ?tt' u' n' =
      (if u' = u \<and> n' = n then Some ?h else registered (fst ?s2) u' n')"
    by (rule registered_register_task) simp
  then have "\<forall>u' n'. registered ?tt' u' n' =
      (if u' = u \<and> n' = n then Some ?h else registered tt u' n')"
    by (simp add: reg2)
  with ct show ?thesis by blast
qed

lemma loop_after_keyed_spawn:
  assumes fresh: "\<forall>h. task_table l h \<noteq> None \<longrightarrow> h < next_handle l"
    and l': "l' = snd (loop_create_task c (snd (cancel_user_task u n (tt, l))))"
  shows "loop_grows l l'" and "task_table l' (next_handle l) \<noteq> None"
    and "next_handle l' = Suc (next_handle l)"
    and "\<not> settled l' (next_handle l)"
    and "registered tt u n = Some h \<Longrightarrow> task_table l h \<noteq> None \<Longrightarrow> settled l' h"
proof -
  let ?l2 = "snd (cancel_user_task u n (tt, l))"
  have g1: "loop_grows l ?l2" by (rule loop_cancel_user_task)
  have none: "task_table ?l2 (next_handle ?l2) = None"
    using fresh by (auto simp: cancel_user_task_same_dom)
  have g2: "loop_grows ?l2 l'" unfolding l' by (rule loop_create_task_grows[OF none])
  show g: "loop_grows l l'" by (rule loop_grows_trans[OF g1 g2])
  show "task_table l' (next_handle l) \<noteq> None"
    by (simp add: l' loop_create_task_def cancel_user_task_same_dom)
  show "next_handle l' = Suc (next_handle l)"
    by (simp add: l' loop_create_task_def cancel_user_task_same_dom)
  show "\<not> settled l' (next_handle l)"
    by (simp add: l' loop_create_task_def cancel_user_task_same_dom settled_def task_done_def
        task_cancel_requested_def)
  assume r: "registered tt u n = Some h" and t: "task_table l h \<noteq> None"
  have "settled ?l2 h" by (rule cancel_user_task_settles[OF r])
  moreover have "task_table ?l2 h \<noteq> None" using t by (simp add: cancel_user_task_same_dom)
  ultimately show "settled l' h" using g2 by (simp add: loop_grows_def)
qed

lemma reg_inv_grows:
  assumes inv: "reg_inv (tt, l, sp)" and g: "loop_grows l l'"
    and reg: "\<forall>u n h. registered tt' u n = Some h \<longrightarrow> registered tt u n = Some h"
    and lost: "\<forall>u n h. registered tt u n = Some h \<longrightarrow> registered tt' u n = Some h \<or> settled l' h"
  shows "reg_inv (tt', l', sp)"
proof -
  have fresh: "\<forall>h. task_table l' h \<noteq> None \<longrightarrow> h < next_handle l'"
  proof (intro allI impI)
    fix h assume "task_table l' h \<noteq> None"
    then have "task_table l h \<noteq> None \<or> h < next_handle l'" using g unfolding loop_grows_def by blast
    moreover have "task_table l h \<noteq> None \<longrightarrow> h < next_handle l" using inv by (simp add: reg_inv_def)
    moreover have "next_handle l \<le> next_handle l'" using g by (simp add: loop_grows_def)
    ultimately show "h < next_handle l'" by auto
  qed
  have tbl: "\<forall>u n h. registered tt' u n = Some h \<longrightarrow> task_table l' h \<noteq> None"
  proof (intro allI impI)
    fix u n h assume "registered tt' u n = Some h"
    then have "registered tt u n = Some h" using reg by blast
    then have "task_table l h \<noteq> None" using inv unfolding reg_inv_def by blast
    then show "task_table l' h \<noteq> None" using g unfolding loop_grows_def by blast
  qed
  have sp: "\<forall>k h. (k, h) \<in> set sp \<longrightarrow>
      task_table l' h \<noteq> None \<and> (registered tt' (fst k) (snd k) = Some h \<or> settled l' h)"
  proof (intro allI impI)
    fix k h assume "(k, h) \<in> set sp"
    then have a: "task_table l h \<noteq> None" and b: "registered tt (fst k) (snd k) = Some h \<or> settled l h"
      using inv by (cases k, auto simp: reg_inv_def)+
    have "task_table l' h \<noteq> None" using a g unfolding loop_grows_def by blast
    moreover have "registered tt' (fst k) (snd k) = Some h \<or> settled l' h"
      using b a lost g unfolding loop_grows_def by blast
    ultimately show "task_table l' h \<noteq> None \<and> (registered tt' (fst k) (snd k) = Some h \<or> settled l' h)"
      by simp
  qed
  show ?thesis using fresh tbl sp by (simp add: reg_inv_def)
qed

lemma reg_inv_cancel:
  assumes "reg_inv (tt, l, sp)"
  shows "reg_inv (fst (cancel_user_task u n (tt, l)), snd (cancel_user_task u n (tt, l)), sp)"
proof (rule reg_inv_grows[OF assms loop_cancel_user_task])
  show "\<forall>u' n' h. registered (fst (cancel_user_task u n (tt, l))) u' n' = Some h \<longrightarrow>
      registered tt u' n' = Some h"
    by (simp add: registered_cancel_user_task split: if_splits)
  show "\<forall>u' n' h. registered tt u' n' = Some h \<longrightarrow>
      registered (fst (cancel_user_task u n (tt, l))) u' n' = Some h
      \<or> settled (snd (cancel_user_task u n (tt, l))) h"
    using cancel_user_task_settles[of tt u n _ l]
    by (auto simp: registered_cancel_user_task)
qed

lemma registered_cancel_all:
  "registered (fst (cancel_all_user_tasks u (tt, l))) u' n' =
     (if u' = u then None else registered tt u' n')"
  by (auto simp: cancel_all_user_tasks_def registered_def delete_conv' split: option.splits)

lemma loop_cancel_all: "loop_grows l (snd (cancel_all_user_tasks u (tt, l)))"
  by (auto simp: cancel_all_user_tasks_def loop_grows_refl fold_task_cancel_grows split: option.splits)

lemma cancel_all_settles:
  assumes "registered tt u n = Some h" and "task_table l h \<noteq> None"
  shows "settled (snd (cancel_all_user_tasks u (tt, l))) h"
proof -
  obtain m where m: "map_of (user_specific_tasks tt) u = Some m" "map_of m n = Some h"
    using assms(1) by (auto simp: registered_def split: option.splits)
  then have "(n, h) \<in> set m" by (simp add: map_of_SomeD)
  from fold_task_cancel_settles[OF this assms(2)] m show ?thesis
    by (simp add: cancel_all_user_tasks_def)
qed

lemma reg_inv_cancel_all:
  assumes "reg_inv (tt, l, sp)"
  shows "reg_inv (fst (cancel_all_user_tasks u (tt, l)), snd (cancel_all_user_tasks u (tt, l)), sp)"
proof (rule reg_inv_grows[OF assms loop_cancel_all])
  show "\<forall>u' n' h. registered (fst (cancel_all_user_tasks u (tt, l))) u' n' = Some h \<longrightarrow>
      registered tt u' n' = Some h"
    by (simp add: registered_cancel_all split: if_splits)
  have "\<And>u' n' h. registered tt u' n' = Some h \<Longrightarrow> task_table l h \<noteq> None"
    using assms unfolding reg_inv_def by blast
  then show "\<forall>u' n' h. registered tt u' n' = Some h \<longrightarrow>
      registered (fst (cancel_all_user_tasks u (tt, l))) u' n' = Some h
      \<or> settled (snd (cancel_all_user_tasks u (tt, l))) h"
    using cancel_all_settles[of tt u _ _ l]
    by (auto simp: registered_cancel_all)
qed

lemma reg_inv_finish:
  assumes "reg_inv (tt, l, sp)"
  shows "reg_inv (fst (task_finishes h (tt, l)), snd (task_finishes h (tt, l)), sp)"
proof (rule reg_inv_grows[OF assms])
  show "loop_grows l (snd (task_finishes h (tt, l)))"
    by (auto simp: task_finishes_def loop_grows_def settled_def task_done_def
        task_cancel_requested_def split: option.splits)
  show "\<forall>u n ha. registered (fst (task_finishes h (tt, l))) u n = Some ha \<longrightarrow>
      registered tt u n = Some ha"
    by (auto simp: task_finishes_def split: option.splits)
  show "\<forall>u n ha. registered tt u n = Some ha \<longrightarrow>
      registered (fst (task_finishes h (tt, l))) u n = Some ha
      \<or> settled (snd (task_finishes h (tt, l))) ha"
    by (auto simp: task_finishes_def split: option.splits)
qed

lemma reg_inv_spawn:
  assumes inv: "reg_inv (tt, l, sp)"
  shows "reg_inv (run_op (Spawn running c uo no) (tt, l, sp))"
proof (cases "loop_set tt \<or> running")
  case False
  then show ?thesis using inv by (simp add: create_task_none)
next
  case True
  have fresh: "\<forall>h. task_table l h \<noteq> None \<longrightarrow> h < next_handle l"
    using inv by (simp add: reg_inv_def)
  then have none: "task_table l (next_handle l) = None" by blast
  show ?thesis
  proof (cases "task_key uo no")
    case None
    have "reg_inv (tt\<lparr>loop_set := True, tasks := insert (next_handle l) (tasks tt)\<rparr>,
        snd (loop_create_task c l), sp)"
      by (rule reg_inv_grows[OF inv loop_create_task_grows[OF none]]) simp_all
    then show ?thesis using True None by (simp add: create_task_unkeyed)
  next
    case (Some k)
    obtain u n where k: "k = (u, n)" by (cases k)
    let ?tt1 = "tt\<lparr>loop_set := True\<rparr>"
    let ?l' = "snd (loop_create_task c (snd (cancel_user_task u n (?tt1, l))))"
    let ?h = "next_handle l"
    obtain tt' where ct: "create_task running c uo no (tt, l) = (Some ?h, tt', ?l')"
      and reg: "\<forall>u' n'. registered tt' u' n' =
                 (if u' = u \<and> n' = n then Some ?h else registered tt u' n')"
      using create_task_keyed[OF True, of uo no u n c l] Some k by auto
    note la = loop_after_keyed_spawn[OF fresh refl, where c=c and u=u and n=n and tt="?tt1"]
    have g: "loop_grows l ?l'" by (rule la(1))
    have inv1: "reg_inv (?tt1, l, sp)" using inv by (simp add: reg_inv_def)
    have old: "\<forall>u' n' h. registered tt u' n' = Some h \<longrightarrow>
        task_table ?l' h \<noteq> None \<and> (registered tt' u' n' = Some h \<or> settled ?l' h)"
    proof (intro allI impI)
      fix u' n' h assume r: "registered tt u' n' = Some h"
      then have t: "task_table l h \<noteq> None" using inv unfolding reg_inv_def by blast
      then have t': "task_table ?l' h \<noteq> None" using g unfolding loop_grows_def by blast
      have "registered tt' u' n' = Some h \<or> settled ?l' h"
      proof (cases "u' = u \<and> n' = n")
        case True
        then have "registered ?tt1 u n = Some h" using r by simp
        from la(5)[OF this t] show ?thesis by simp
      next
        case False
        then have "registered tt' u' n' = registered tt u' n'" using reg by auto
        then show ?thesis using r by simp
      qed
      with t' show "task_table ?l' h \<noteq> None \<and> (registered tt' u' n' = Some h \<or> settled ?l' h)"
        by simp
    qed
    have i1: "\<forall>h. task_table ?l' h \<noteq> None \<longrightarrow> h < next_handle ?l'"
    proof (intro allI impI)
      fix h assume "task_table ?l' h \<noteq> None"
      then have "task_table l h \<noteq> None \<or> h < next_handle ?l'"
        using g unfolding loop_grows_def by blast
      moreover have "next_handle l \<le> next_handle ?l'" using g by (simp add: loop_grows_def)
      ultimately show "h < next_handle ?l'" using fresh by fastforce
    qed
    have i2: "\<forall>u' n' h. registered tt' u' n' = Some h \<longrightarrow> task_table ?l' h \<noteq> None"
    proof (intro allI impI)
      fix u' n' h assume r: "registered tt' u' n' = Some h"
      show "task_table ?l' h \<noteq> None"
      proof (cases "u' = u \<and> n' = n")
        case True
        then have "h = ?h" using r reg by simp
        then show ?thesis using la(2) by simp
      next
        case False
        then have "registered tt' u' n' = registered tt u' n'" using reg by auto
        then have "registered tt u' n' = Some h" using r by simp
        then show ?thesis using old by blast
      qed
    qed
    have i3: "\<forall>k' h. (k', h) \<in> set (sp @ [((u, n), ?h)]) \<longrightarrow>
        task_table ?l' h \<noteq> None \<and> (registered tt' (fst k') (snd k') = Some h \<or> settled ?l' h)"
    proof (intro allI impI)
      fix k' h assume "(k', h) \<in> set (sp @ [((u, n), ?h)])"
      then consider "(k', h) \<in> set sp" | "k' = (u, n)" "h = ?h" by auto
      then show "task_table ?l' h \<noteq> None \<and> (registered tt' (fst k') (snd k') = Some h \<or> settled ?l' h)"
      proof cases
        case 1
        then have a: "task_table l h \<noteq> None"
          and b: "registered tt (fst k') (snd k') = Some h \<or> settled l h"
          using inv by (cases k', auto simp: reg_inv_def)+
        have t': "task_table ?l' h \<noteq> None" using a g unfolding loop_grows_def by blast
        from b show ?thesis
        proof
          assume "registered tt (fst k') (snd k') = Some h"
          then show ?thesis using old by blast
        next
          assume "settled l h"
          then have "settled ?l' h" using a g unfolding loop_grows_def by blast
          then show ?thesis using t' by simp
        qed
      next
        case 2
        then show ?thesis using la(2) reg by simp
      qed
    qed
    have "reg_inv (tt', ?l', sp @ [((u, n), ?h)])"
      using i1 i2 i3 by (simp add: reg_inv_def)
    then show ?thesis using ct Some k by simp
  qed
qed

lemma reg_inv_run_op:
  assumes "reg_inv s"
  shows "reg_inv (run_op op s)"
proof -
  obtain tt l sp where s: "s = (tt, l, sp)" by (cases s)
  show ?thesis
  proof (cases op)
    case (Spawn running c uo no)
    then show ?thesis using assms s reg_inv_spawn[of tt l sp] by simp
  next
    case (Cancel u n)
    then show ?thesis using reg_inv_cancel[of tt l sp u n] assms s
      by (simp add: case_prod_beta)
  next
    case (CancelAll u)
    then show ?thesis using reg_inv_cancel_all[of tt l sp u] assms s
      by (simp add: case_prod_beta)
  next
    case (Finish h)
    then show ?thesis using reg_inv_finish[of tt l sp h] assms s
      by (simp add: case_prod_beta)
  qed
qed

lemma reg_inv_fold: "reg_inv s \<Longrightarrow> reg_inv (fold run_op ops s)"
  by (induction ops arbitrary: s) (simp_all add: reg_inv_run_op)

lemma reg_inv_run_ops: "reg_inv (run_ops ops registry_init)"
  by (simp add: run_ops_def reg_inv_fold reg_inv_init)

text \<open>
  Claim C7. In every state the registry reaches from its initial state, through any
  history of spawns, cancellations and completions, a task spawned under a key
  \<open>(owner, name)\<close> that is neither done nor cancelled is the one registered under that
  key, so there is at most one. A spawn under a non-zero owner id and a non-empty name
  returns a fresh handle and registers it under the key; the task registered there before
  is removed from the registry and is done or has its cancellation requested, as is every
  task spawned under that key earlier.
\<close>

theorem spawn_supersedes:
  assumes run: "run_ops ops registry_init = (tt, l, spawned)"
    and key: "u \<noteq> 0" "n \<noteq> []"
    and loop: "loop_set tt \<or> running"
  shows "\<exists>tt' l'. create_task running c (Some u) (Some n) (tt, l) = (Some (next_handle l), tt', l')
          \<and> registered tt' u n = Some (next_handle l)
          \<and> \<not> settled l' (next_handle l)
          \<and> (\<forall>h. registered tt u n = Some h \<longrightarrow>
                h \<noteq> next_handle l \<and> registered tt' u n \<noteq> Some h \<and> settled l' h)
          \<and> (\<forall>h. ((u, n), h) \<in> set spawned \<longrightarrow> settled l' h)
          \<and> (\<forall>k h. (k, h) \<in> set spawned \<longrightarrow> \<not> settled l h \<longrightarrow>
                registered tt (fst k) (snd k) = Some h)"
proof -
  have inv: "reg_inv (tt, l, spawned)" using reg_inv_run_ops[of ops] run by simp
  have fresh: "\<forall>h. task_table l h \<noteq> None \<longrightarrow> h < next_handle l"
    using inv by (simp add: reg_inv_def)
  have tk: "task_key (Some u) (Some n) = Some (u, n)" using key by (simp add: task_key_def)
  let ?tt1 = "tt\<lparr>loop_set := True\<rparr>"
  let ?l' = "snd (loop_create_task c (snd (cancel_user_task u n (?tt1, l))))"
  let ?h = "next_handle l"
  obtain tt' where ct: "create_task running c (Some u) (Some n) (tt, l) = (Some ?h, tt', ?l')"
    and reg: "\<forall>u' n'. registered tt' u' n' =
               (if u' = u \<and> n' = n then Some ?h else registered tt u' n')"
    using create_task_keyed[OF loop tk, of c l] by auto
  note la = loop_after_keyed_spawn[OF fresh refl, where c=c and u=u and n=n and tt="?tt1"]
  have old: "\<And>h. registered tt u n = Some h \<Longrightarrow> h \<noteq> ?h \<and> settled ?l' h"
  proof -
    fix h assume r: "registered tt u n = Some h"
    then have t: "task_table l h \<noteq> None" using inv unfolding reg_inv_def by blast
    then have "h \<noteq> ?h" using fresh by fastforce
    moreover have "settled ?l' h" using la(5)[of h] r t by simp
    ultimately show "h \<noteq> ?h \<and> settled ?l' h" by simp
  qed
  have sp: "\<And>k h. (k, h) \<in> set spawned \<Longrightarrow>
      task_table l h \<noteq> None \<and> (registered tt (fst k) (snd k) = Some h \<or> settled l h)"
    using inv by (auto simp: reg_inv_def)
  have prev: "\<forall>h. ((u, n), h) \<in> set spawned \<longrightarrow> settled ?l' h"
  proof (intro allI impI)
    fix h assume "((u, n), h) \<in> set spawned"
    from sp[OF this] have t: "task_table l h \<noteq> None"
      and d: "registered tt u n = Some h \<or> settled l h" by simp_all
    from d show "settled ?l' h"
    proof
      assume "registered tt u n = Some h" then show ?thesis using old by blast
    next
      assume "settled l h" then show ?thesis using la(1) t unfolding loop_grows_def by blast
    qed
  qed
  have live: "\<forall>k h. (k, h) \<in> set spawned \<longrightarrow> \<not> settled l h \<longrightarrow>
      registered tt (fst k) (snd k) = Some h"
    using sp by blast
  have "registered tt' u n = Some ?h" using reg by simp
  moreover have "\<forall>h. registered tt u n = Some h \<longrightarrow>
      h \<noteq> ?h \<and> registered tt' u n \<noteq> Some h \<and> settled ?l' h"
    using old reg by auto
  ultimately show ?thesis using ct la(4) prev live by blast
qed

theorem spawn_supersedes_witness:
  "\<exists>tt l spawned.
      run_ops [Spawn True (10::nat) (Some 7) (Some ''timeout'')] registry_init = (tt, l, spawned)
      \<and> (7::int) \<noteq> 0 \<and> ''timeout'' \<noteq> [] \<and> (loop_set tt \<or> False)
      \<and> registered tt 7 ''timeout'' = Some 0
      \<and> (\<exists>tt' l'. create_task False 20 (Some 7) (Some ''timeout'') (tt, l) = (Some 1, tt', l')
            \<and> registered tt' 7 ''timeout'' = Some 1
            \<and> settled l' 0 \<and> \<not> settled l' 1)"
proof -
  obtain tt l spawned where
    run: "run_ops [Spawn True (10::nat) (Some 7) (Some ''timeout'')] registry_init = (tt, l, spawned)"
    by (cases "run_ops [Spawn True (10::nat) (Some 7) (Some ''timeout'')] registry_init")
  have ev: "registered tt 7 ''timeout'' = Some 0 \<and> next_handle l = 1 \<and> loop_set tt"
    using run
    by (auto simp: run_ops_def registry_init_def tracker_init_def loop_init_def create_task_def
        task_key_def Let_def loop_create_task_def register_task_def registered_def
        cancel_user_task_def)
  have k: "(7::int) \<noteq> 0" "''timeout'' \<noteq> []" by simp_all
  have lp: "loop_set tt \<or> False" using ev by simp
  from spawn_supersedes[OF run k lp, of 20] ev run k lp show ?thesis by auto
qed

subsection \<open>UploadStateMachine: the inactivity timeout\<close>








subsection \<open>The document store: premium lookups\<close>

lemma is_premium_fst_cong:
  assumes "users dd u = Some user" and "users dd' u = Some user'" and "premium user' = premium user"
  shows "fst (is_premium_for_platform admin now u p (Some dd')) =
         fst (is_premium_for_platform admin now u p (Some dd))"
proof (cases "map_of (premium user) p")
  case None
  then show ?thesis using assms by (simp add: is_premium_for_platform_def)
next
  case (Some pp)
  show ?thesis
  proof (cases "pr_until pp")
    case None
    then show ?thesis using assms Some by (simp add: is_premium_for_platform_def)
  next
    case (Some until)
    then show ?thesis using assms \<open>map_of (premium user) p = Some pp\<close>
      by (simp add: is_premium_for_platform_def)
  qed
qed

lemma is_premium_no_plan:
  assumes "users dd u = Some user" and "premium user = []"
  shows "\<not> fst (is_premium_for_platform admin now u p (Some dd)) \<or> u = admin"
  using assms by (simp add: is_premium_for_platform_def)

lemma is_premium_no_user:
  assumes "users dd u = None"
  shows "\<not> fst (is_premium_for_platform admin now u p (Some dd)) \<or> u = admin"
  using assms by (simp add: is_premium_for_platform_def)

lemma is_premium_admin: "fst (is_premium_for_platform admin now admin p d)"
  by (simp add: is_premium_for_platform_def)

lemma is_premium_touch:
  "fst (is_premium_for_platform admin now u p (touch_last_active v t d)) =
   fst (is_premium_for_platform admin now u p d)"
proof (cases "u = admin")
  case True
  then show ?thesis by (simp add: is_premium_admin)
next
  case na: False
  show ?thesis
  proof (cases d)
    case None
    then show ?thesis by (simp add: touch_last_active_def)
  next
    case d: (Some dd)
    define dd' where "dd' = dd\<lparr>users := (users dd)(v \<mapsto>
                  (case users dd v of
                     None \<Rightarrow> \<lparr>premium = [], last_active = Some t\<rparr>
                   | Some u \<Rightarrow> u\<lparr>last_active := Some t\<rparr>))\<rparr>"
    have td: "touch_last_active v t (Some dd) = Some dd'"
      by (simp add: touch_last_active_def dd'_def)
    show ?thesis
    proof (cases "users dd u")
      case None
      show ?thesis
      proof (cases "u = v")
        case True
        then have "users dd' u = Some \<lparr>premium = [], last_active = Some t\<rparr>"
          using None by (simp add: dd'_def)
        from is_premium_no_plan[OF this, of admin now p] is_premium_no_user[OF None, of admin now p] na
        show ?thesis by (simp add: td d)
      next
        case False
        then have "users dd' u = None" using None by (simp add: dd'_def)
        from is_premium_no_user[OF this, of admin now p] is_premium_no_user[OF None, of admin now p] na
        show ?thesis by (simp add: td d)
      qed
    next
      case (Some user)
      have "\<exists>user'. users dd' u = Some user' \<and> premium user' = premium user"
        using Some by (cases "u = v") (simp_all add: dd'_def)
      then obtain user' where "users dd' u = Some user'" "premium user' = premium user" by blast
      from is_premium_fst_cong[OF Some this] show ?thesis by (simp add: td d)
    qed
  qed
qed

lemma is_premium_snd_cases:
  "snd (is_premium_for_platform admin now u p d) = d
   \<or> (\<exists>dd user'. d = Some dd
        \<and> snd (is_premium_for_platform admin now u p d) = Some (dd\<lparr>users := (users dd)(u \<mapsto> user')\<rparr>))"
  by (auto simp: is_premium_for_platform_def split: option.splits)

lemma get_user_state_is_premium:
  "get_user_state (snd (is_premium_for_platform admin now v p d)) u = get_user_state d u"
  using is_premium_snd_cases[of admin now v p d]
  by (auto simp: get_user_state_def)







subsection \<open>UploadStateMachine: the caption steps\<close>

lemma get_user_state_touch:
  "get_user_state (touch_last_active v t d) u = get_user_state d u"
  by (auto simp: get_user_state_def touch_last_active_def split: option.splits)

text \<open>
  The step \<^verbatim>\<open>waiting_for_caption\<close> enforces the ceiling: a caption of more than 280
  characters sent by a user who is not premium for the job's platform is refused before
  any transition. The handler returns after one reply, and no user's stored state, no file
  and no task has changed.
\<close>

theorem caption_limit_single:
  assumes act: "action (get_user_state (db w) user_id) = Some ''waiting_for_caption''"
    and fi: "fi_platform (file_info_or_empty (sd_file_info (get_user_state (db w) user_id))) = Some platform"
    and free: "\<not> fst (is_premium_for_platform (ADMIN_ID w) (utcnow w) user_id platform (db w))"
    and long: "280 < length msg_text"
  shows "\<exists>w'. handle_text_input user_id msg_text download after w = Returned w'
           \<and> (\<forall>u. get_user_state (db w') u = get_user_state (db w) u)
           \<and> fsys w' = fsys w \<and> task_tracker w' = task_tracker w \<and> evloop w' = evloop w
           \<and> outbox w' = outbox w @
                [Reply user_id (next_message_id w)
                   ''For Free Accounts, The Caption Limit Is 280 Characters.'']"
proof -
  have ne: "get_user_state (db w) user_id \<noteq> empty_state"
    using act by (auto simp: empty_state_def)
  let ?w0 = "w\<lparr>db := touch_last_active user_id (utcnow w) (db w)\<rparr>"
  let ?pr = "is_premium_for_platform (ADMIN_ID w) (utcnow w) user_id platform
               (touch_last_active user_id (utcnow w) (db w))"
  have np: "\<not> fst ?pr" using free by (simp add: is_premium_touch)
  let ?w' = "snd (msg_reply user_id ''For Free Accounts, The Caption Limit Is 280 Characters.''
                (?w0\<lparr>db := snd ?pr\<rparr>))"
  have res: "handle_text_input user_id msg_text download after w = Returned ?w'"
    using ne act fi np long by (simp add: handle_text_input_def Let_def)
  have st: "\<forall>u. get_user_state (db ?w') u = get_user_state (db w) u"
    by (simp add: msg_reply_def get_user_state_is_premium get_user_state_touch)
  show ?thesis using res st by (simp add: msg_reply_def)
qed

lemma caption_limit_single_example:
  "action (get_user_state (db caption_world) 7) = Some ''waiting_for_caption''
   \<and> fi_platform (file_info_or_empty (sd_file_info (get_user_state (db caption_world) 7))) = Some ''instagram''
   \<and> \<not> fst (is_premium_for_platform (ADMIN_ID caption_world) (utcnow caption_world) 7 ''instagram'' (db caption_world))
   \<and> 280 < length (replicate 281 (97::nat))
   \<and> (\<exists>w'. handle_text_input 7 (replicate 281 97) (Inr (Some ''downloads/a.mp4'')) None caption_world
              = Returned w'
         \<and> (\<forall>u. get_user_state (db w') u = get_user_state (db caption_world) u)
         \<and> fsys w' = fsys caption_world)"
proof -
  have a: "action (get_user_state (db caption_world) 7) = Some ''waiting_for_caption''"
    and b: "fi_platform (file_info_or_empty (sd_file_info (get_user_state (db caption_world) 7))) = Some ''instagram''"
    and c: "\<not> fst (is_premium_for_platform (ADMIN_ID caption_world) (utcnow caption_world) 7 ''instagram'' (db caption_world))"
    by (simp_all add: caption_world_def start_world_def save_user_state_def get_user_state_def
        file_info_or_empty_def is_premium_for_platform_def)
  have d: "280 < length (replicate 281 (97::nat))" by simp
  from caption_limit_single[OF a b c d, of "Inr (Some ''downloads/a.mp4'')" None] a b c d
  show ?thesis by auto
qed

text \<open>
  Claim C8 (in every caption-collecting step a caption of more than 280 characters from
  a user who is not premium is rejected and the state is unchanged) fails on the code in
  the bulk caption steps, which lack the check that \<^verbatim>\<open>waiting_for_caption\<close> makes. A user
  who is not premium and whose lock is free sends 281 characters in the step
  \<^verbatim>\<open>waiting_for_bulk_single_caption\<close>: the caption is stored for every item and the state
  machine moves on to \<^verbatim>\<open>waiting_for_schedule_options\<close>.
\<close>

theorem bulk_caption_unchecked:
  "\<not> fst (is_premium_for_platform (ADMIN_ID bulk_world) (utcnow bulk_world) 7 ''instagram'' (db bulk_world))
   \<and> 7 \<notin> locked_users bulk_world
   \<and> action (get_user_state (db bulk_world) 7) = Some ''waiting_for_bulk_single_caption''
   \<and> 280 < length (replicate 281 (97::nat))
   \<and> (case on_text_message 7 (replicate 281 97) (Inl OtherException) None bulk_world of
         Returned w' \<Rightarrow>
           action (get_user_state (db w') 7) = Some ''waiting_for_schedule_options''
           \<and> bulk_captions (get_user_state (db w') 7) = Some [Some (replicate 281 97)]
           \<and> get_user_state (db w') 7 \<noteq> get_user_state (db bulk_world) 7
       | _ \<Rightarrow> False)"
  by (simp add: bulk_world_def start_world_def save_user_state_def is_premium_for_platform_def
      on_text_message_def with_user_lock_def handle_text_input_def Let_def get_user_state_def
      empty_state_def touch_last_active_def msg_reply_def list_or_empty_def)

subsection \<open>UploadStateMachine: oversized media\<close>







subsection \<open>SchedulerDaemon\<close>

lemma map_of_set_status:
  "map_of (set_status sid s xs) k =
     (if k = sid then map_option (\<lambda>e. e\<lparr>se_status := s\<rparr>) (map_of xs k) else map_of xs k)"
  by (induction sid s xs rule: set_status.induct) auto

lemma same_coros_task_cancel: "same_coros l (task_cancel h l)"
  by (auto simp: same_coros_def task_cancel_def split: option.splits)

lemma same_coros_cancel_user_task: "same_coros l (snd (cancel_user_task u n (tt, l)))"
  by (auto simp: cancel_user_task_def Let_def same_coros_task_cancel split: option.splits)
     (simp add: same_coros_def)+

lemma runs_of_create:
  assumes "same_coros l l2"
  shows "runs_of (snd (loop_create_task c l2)) sid =
           runs_of l sid @ (if is_run_of sid c then [next_handle l] else [])"
proof -
  have nh: "next_handle l2 = next_handle l"
    and co: "\<And>h. map_option coro (task_table l2 h) = map_option coro (task_table l h)"
    using assms by (simp_all add: same_coros_def)
  have eq: "\<And>h. (case task_table l2 h of None \<Rightarrow> False | Some t \<Rightarrow> is_run_of sid (coro t)) =
                (case task_table l h of None \<Rightarrow> False | Some t \<Rightarrow> is_run_of sid (coro t))"
  proof -
    fix h
    show "(case task_table l2 h of None \<Rightarrow> False | Some t \<Rightarrow> is_run_of sid (coro t)) =
          (case task_table l h of None \<Rightarrow> False | Some t \<Rightarrow> is_run_of sid (coro t))"
      using co[of h] by (cases "task_table l2 h"; cases "task_table l h") auto
  qed
  have old: "filter (\<lambda>h. case (if h = next_handle l then Some \<lparr>coro = c, finished = False,
                 must_cancel = False, created_at = clock l2\<rparr> else task_table l2 h) of
               None \<Rightarrow> False | Some t \<Rightarrow> is_run_of sid (coro t)) [0..<next_handle l]
             = filter (\<lambda>h. case task_table l h of None \<Rightarrow> False | Some t \<Rightarrow> is_run_of sid (coro t))
                 [0..<next_handle l]"
    by (rule filter_cong) (auto simp: eq)
  show ?thesis
    using old by (simp add: runs_of_def loop_create_task_def nh fun_upd_def)
qed

lemma create_task_loop:
  assumes "loop_set tt \<or> running"
  shows "\<exists>l2. same_coros l l2 \<and> snd (snd (create_task running c uo no (tt, l))) = snd (loop_create_task c l2)"
proof (cases "task_key uo no")
  case None
  have "same_coros l l" by (simp add: same_coros_def)
  then show ?thesis using create_task_unkeyed[OF assms None, of c l] by auto
next
  case (Some k)
  obtain u n where k: "k = (u, n)" by (cases k)
  from create_task_keyed[OF assms, of uo no u n c l] Some k
  show ?thesis using same_coros_cancel_user_task by fastforce
qed

lemma dispatch_effect:
  assumes "loop_set (task_tracker w)"
  shows "loop_set (task_tracker (dispatch (sid, e) w))"
    and "db (dispatch (sid, e) w) =
           (case db w of None \<Rightarrow> None
            | Some dd \<Rightarrow> Some (dd\<lparr>schedules := set_status sid ''processing'' (schedules dd)\<rparr>))"
    and "length (runs_of (evloop (dispatch (sid, e) w)) k) =
           length (runs_of (evloop w) k) + (if k = sid then 1 else 0)"
    and "utcnow (dispatch (sid, e) w) = utcnow w"
proof -
  let ?c = "ProcessAndUpload None (schedule_file_info e) (se_user_id e) True (Some sid)"
  let ?w1 = "w\<lparr>db := (case db w of None \<Rightarrow> None
                     | Some dd \<Rightarrow> Some (dd\<lparr>schedules := snd (update_one_status sid ''processing'' (schedules dd))\<rparr>))\<rparr>"
  let ?ct = "create_task True ?c (Some (se_user_id e)) (Some (scheduled_task_name sid))
               (task_tracker w, evloop w)"
  have d: "dispatch (sid, e) w = ?w1\<lparr>task_tracker := fst (snd ?ct), evloop := snd (snd ?ct)\<rparr>"
    by (simp add: dispatch_def Let_def)
  show "db (dispatch (sid, e) w) =
           (case db w of None \<Rightarrow> None
            | Some dd \<Rightarrow> Some (dd\<lparr>schedules := set_status sid ''processing'' (schedules dd)\<rparr>))"
    by (simp add: d update_one_status_def split: option.splits)
  show "utcnow (dispatch (sid, e) w) = utcnow w" by (simp add: d)
  obtain l2 where l2: "same_coros (evloop w) l2" "snd (snd ?ct) = snd (loop_create_task ?c l2)"
    using create_task_loop[of "task_tracker w" True "evloop w" ?c] by blast
  show "length (runs_of (evloop (dispatch (sid, e) w)) k) =
           length (runs_of (evloop w) k) + (if k = sid then 1 else 0)"
    using runs_of_create[OF l2(1), of ?c k] by (auto simp: d l2(2) is_run_of_def)
  show "loop_set (task_tracker (dispatch (sid, e) w))"
    by (auto simp: d create_task_def Let_def cancel_user_task_def split: option.splits prod.splits)
qed

lemma map_fst_set_status: "map fst (set_status sid s xs) = map fst xs"
  by (induction sid s xs rule: set_status.induct) auto

lemma status_of_dispatch:
  assumes "loop_set (task_tracker w)"
  shows "status_of (db (dispatch (sid, e) w)) k =
           (if k = sid then map_option (\<lambda>x. ''processing'') (status_of (db w) k)
            else status_of (db w) k)"
  by (cases "db w")
     (simp_all add: dispatch_effect(2)[OF assms] status_of_def map_of_set_status
        option.map_comp comp_def)

lemma dispatch_all_Cons: "dispatch_all ((sid, e) # xs) w = dispatch_all xs (dispatch (sid, e) w)"
  by (simp add: dispatch_all_def)

lemma dispatch_all_loop_set:
  "loop_set (task_tracker w) \<Longrightarrow> loop_set (task_tracker (dispatch_all xs w))"
proof (induction xs arbitrary: w)
  case Nil
  then show ?case by (simp add: dispatch_all_def)
next
  case (Cons x xs)
  obtain sid e where x: "x = (sid, e)" by (cases x)
  show ?case unfolding x dispatch_all_Cons
    by (rule Cons.IH) (rule dispatch_effect(1)[OF Cons.prems])
qed

lemma dispatch_all_status:
  "loop_set (task_tracker w) \<Longrightarrow>
   status_of (db (dispatch_all xs w)) k =
     (if k \<in> fst ` set xs then map_option (\<lambda>x. ''processing'') (status_of (db w) k)
      else status_of (db w) k)"
proof (induction xs arbitrary: w)
  case Nil
  then show ?case by (simp add: dispatch_all_def)
next
  case (Cons x xs)
  obtain sid e where x: "x = (sid, e)" by (cases x)
  let ?w1 = "dispatch (sid, e) w"
  have ls: "loop_set (task_tracker ?w1)" by (rule dispatch_effect(1)[OF Cons.prems])
  have st: "status_of (db ?w1) k =
           (if k = sid then map_option (\<lambda>x. ''processing'') (status_of (db w) k)
            else status_of (db w) k)"
    by (rule status_of_dispatch[OF Cons.prems])
  have ih: "status_of (db (dispatch_all xs ?w1)) k =
     (if k \<in> fst ` set xs then map_option (\<lambda>x. ''processing'') (status_of (db ?w1) k)
      else status_of (db ?w1) k)"
    by (rule Cons.IH[OF ls])
  show ?case
  proof (cases "k = sid")
    case True
    then show ?thesis unfolding x dispatch_all_Cons ih st
      by (cases "status_of (db w) sid") simp_all
  next
    case False
    then show ?thesis unfolding x dispatch_all_Cons ih st by simp
  qed
qed

lemma dispatch_all_runs:
  "loop_set (task_tracker w) \<Longrightarrow>
   length (runs_of (evloop (dispatch_all xs w)) k) =
     length (runs_of (evloop w) k) + count_list (map fst xs) k"
proof (induction xs arbitrary: w)
  case Nil
  then show ?case by (simp add: dispatch_all_def)
next
  case (Cons x xs)
  obtain sid e where x: "x = (sid, e)" by (cases x)
  let ?w1 = "dispatch (sid, e) w"
  have ls: "loop_set (task_tracker ?w1)" by (rule dispatch_effect(1)[OF Cons.prems])
  have "length (runs_of (evloop (dispatch_all xs ?w1)) k) =
     length (runs_of (evloop ?w1) k) + count_list (map fst xs) k"
    by (rule Cons.IH[OF ls])
  then show ?case unfolding x dispatch_all_Cons
    using dispatch_effect(3)[OF Cons.prems, of sid e k] by simp
qed

lemma dispatch_all_ids:
  "loop_set (task_tracker w) \<Longrightarrow> db w = Some dd \<Longrightarrow>
   \<exists>dd'. db (dispatch_all xs w) = Some dd' \<and> map fst (schedules dd') = map fst (schedules dd)"
proof (induction xs arbitrary: w dd)
  case Nil
  then show ?case by (simp add: dispatch_all_def)
next
  case (Cons x xs)
  obtain sid e where x: "x = (sid, e)" by (cases x)
  let ?w1 = "dispatch (sid, e) w"
  let ?dd1 = "dd\<lparr>schedules := set_status sid ''processing'' (schedules dd)\<rparr>"
  have ls: "loop_set (task_tracker ?w1)" by (rule dispatch_effect(1)[OF Cons.prems(1)])
  have d1: "db ?w1 = Some ?dd1" using dispatch_effect(2)[OF Cons.prems(1), of sid e] Cons.prems(2) by simp
  from Cons.IH[OF ls d1] show ?case unfolding x dispatch_all_Cons
    by (simp add: map_fst_set_status)
qed

lemma count_list_distinct: "distinct xs \<Longrightarrow> x \<in> set xs \<Longrightarrow> count_list xs x = 1"
  by (induction xs) auto

lemma find_due_ids: "fst ` set (find_due now xs) \<subseteq> fst ` set xs"
  by (auto simp: find_due_def)

lemma distinct_find_due: "distinct (map fst xs) \<Longrightarrow> distinct (map fst (find_due now xs))"
  by (simp add: find_due_def distinct_map_filter)

lemma not_due_when_processing:
  assumes "distinct (map fst xs)" and "map_option se_status (map_of xs sid) = Some ''processing''"
  shows "sid \<notin> fst ` set (find_due now xs)"
proof
  assume "sid \<in> fst ` set (find_due now xs)"
  then obtain e where e: "(sid, e) \<in> set xs" "se_status e = ''pending''"
    by (auto simp: find_due_def)
  then have "map_of xs sid = Some e" using assms(1) by simp
  then show False using assms(2) e(2) by simp
qed

text \<open>
  Claim C1, as the code has it. The claim step is an update selected by \<^verbatim>\<open>_id\<close> alone: it
  matches an entry whatever its status. In one daemon with the store up, schedules not
  paused and distinct ids, a poll cycle sets every entry that is due and pending to
  \<^verbatim>\<open>processing\<close> and spawns exactly one pipeline run for it, and a later poll cycle on the
  resulting store does not select that entry again; every other entry keeps its status
  and gets no run.
\<close>

theorem poll_cycle_claims:
  assumes dbu: "db w = Some dd" and run: "\<not> schedules_paused w"
    and lp: "loop_set (task_tracker w)" and dist: "distinct (map fst (schedules dd))"
  shows "(sid \<in> due_ids (utcnow w) w \<longrightarrow>
            status_of (db (poll_cycle w)) sid = Some ''processing''
            \<and> length (runs_of (evloop (poll_cycle w)) sid) = length (runs_of (evloop w) sid) + 1
            \<and> sid \<notin> due_ids later (poll_cycle w))
       \<and> (sid \<notin> due_ids (utcnow w) w \<longrightarrow>
            status_of (db (poll_cycle w)) sid = status_of (db w) sid
            \<and> length (runs_of (evloop (poll_cycle w)) sid) = length (runs_of (evloop w) sid))
       \<and> (sid \<in> fst ` set (schedules dd) \<longrightarrow>
            fst (update_one_status sid ''processing'' (schedules dd)) = 1)"
proof -
  let ?snap = "find_due (utcnow w) (schedules dd)"
  have pc: "poll_cycle w = dispatch_all ?snap w" using dbu run by (simp add: poll_cycle_def)
  have due: "due_ids (utcnow w) w = fst ` set ?snap" using dbu by (simp add: due_ids_def)
  have st: "status_of (db (poll_cycle w)) sid =
     (if sid \<in> fst ` set ?snap then map_option (\<lambda>x. ''processing'') (status_of (db w) sid)
      else status_of (db w) sid)"
    unfolding pc by (rule dispatch_all_status[OF lp])
  have rn: "length (runs_of (evloop (poll_cycle w)) sid) =
     length (runs_of (evloop w) sid) + count_list (map fst ?snap) sid"
    unfolding pc by (rule dispatch_all_runs[OF lp])
  obtain dd' where dd': "db (poll_cycle w) = Some dd'" "map fst (schedules dd') = map fst (schedules dd)"
    using dispatch_all_ids[OF lp dbu, of ?snap] pc by auto
  have dsnap: "distinct (map fst ?snap)" by (rule distinct_find_due[OF dist])
  have a: "sid \<in> due_ids (utcnow w) w \<longrightarrow>
            status_of (db (poll_cycle w)) sid = Some ''processing''
            \<and> length (runs_of (evloop (poll_cycle w)) sid) = length (runs_of (evloop w) sid) + 1
            \<and> sid \<notin> due_ids later (poll_cycle w)"
  proof
    assume m: "sid \<in> due_ids (utcnow w) w"
    then have ms: "sid \<in> fst ` set ?snap" using due by simp
    then have "sid \<in> fst ` set (schedules dd)" using find_due_ids by blast
    then obtain e where "map_of (schedules dd) sid = Some e"
      by (metis (no_types, opaque_lifting) domD dom_map_of_conv_image_fst)
    then have s0: "status_of (db w) sid = Some (se_status e)" using dbu by (simp add: status_of_def)
    have s1: "status_of (db (poll_cycle w)) sid = Some ''processing''" using st ms s0 by simp
    have "sid \<in> set (map fst ?snap)" using ms by simp
    then have "count_list (map fst ?snap) sid = 1" using dsnap by (simp add: count_list_distinct)
    then have r1: "length (runs_of (evloop (poll_cycle w)) sid) = length (runs_of (evloop w) sid) + 1"
      using rn by simp
    have "distinct (map fst (schedules dd'))" using dd'(2) dist by simp
    moreover have "map_option se_status (map_of (schedules dd') sid) = Some ''processing''"
      using s1 dd'(1) by (simp add: status_of_def)
    ultimately have "sid \<notin> fst ` set (find_due later (schedules dd'))"
      by (rule not_due_when_processing)
    then have "sid \<notin> due_ids later (poll_cycle w)" using dd'(1) by (simp add: due_ids_def)
    with s1 r1 show "status_of (db (poll_cycle w)) sid = Some ''processing''
            \<and> length (runs_of (evloop (poll_cycle w)) sid) = length (runs_of (evloop w) sid) + 1
            \<and> sid \<notin> due_ids later (poll_cycle w)" by simp
  qed
  have b: "sid \<notin> due_ids (utcnow w) w \<longrightarrow>
            status_of (db (poll_cycle w)) sid = status_of (db w) sid
            \<and> length (runs_of (evloop (poll_cycle w)) sid) = length (runs_of (evloop w) sid)"
  proof
    assume "sid \<notin> due_ids (utcnow w) w"
    then have ms: "sid \<notin> fst ` set ?snap" using due by simp
    then have "sid \<notin> set (map fst ?snap)" by simp
    then have "count_list (map fst ?snap) sid = 0" by (simp add: count_list_0_iff)
    with st ms rn show "status_of (db (poll_cycle w)) sid = status_of (db w) sid
            \<and> length (runs_of (evloop (poll_cycle w)) sid) = length (runs_of (evloop w) sid)" by simp
  qed
  have c: "sid \<in> fst ` set (schedules dd) \<longrightarrow>
            fst (update_one_status sid ''processing'' (schedules dd)) = 1"
    by (simp add: update_one_status_def)
  show ?thesis using a b c by blast
qed

theorem poll_cycle_claims_witness:
  "db sched_world \<noteq> None \<and> \<not> schedules_paused sched_world
   \<and> loop_set (task_tracker sched_world)
   \<and> 0 \<in> due_ids (utcnow sched_world) sched_world
   \<and> status_of (db sched_world) 0 = Some ''pending''
   \<and> status_of (db (poll_cycle sched_world)) 0 = Some ''processing''
   \<and> length (runs_of (evloop (poll_cycle sched_world)) 0) = 1
   \<and> 0 \<notin> due_ids 60 (poll_cycle sched_world)"
proof -
  obtain dd where d: "db sched_world = Some dd" and ds: "distinct (map fst (schedules dd))"
    by (simp add: sched_world_def)
  have p: "\<not> schedules_paused sched_world" and l: "loop_set (task_tracker sched_world)"
    by (simp_all add: sched_world_def start_world_def tracker_init_def)
  have due: "0 \<in> due_ids (utcnow sched_world) sched_world"
    by (simp add: sched_world_def start_world_def due_ids_def find_due_def)
  have st: "status_of (db sched_world) 0 = Some ''pending''"
    by (simp add: sched_world_def status_of_def)
  have r0: "runs_of (evloop sched_world) 0 = []"
    by (simp add: sched_world_def start_world_def runs_of_def loop_init_def)
  from poll_cycle_claims[OF d p l ds, of 0 60] d p l due st r0 show ?thesis by simp
qed

text \<open>
  The claim C1 as stated fails: two claim attempts on one pending entry both match (the
  second finds the entry already \<^verbatim>\<open>processing\<close> and matches all the same), and two
  pollers that have both read the entry as pending dispatch it twice.
\<close>

theorem double_claim_counterexample:
  "status_of (db sched_world) 0 = Some ''pending''
   \<and> fst (update_one_status 0 ''processing'' (schedules (the (db sched_world)))) = 1
   \<and> map_option se_status
        (map_of (snd (update_one_status 0 ''processing'' (schedules (the (db sched_world))))) 0)
        = Some ''processing''
   \<and> fst (update_one_status 0 ''processing''
        (snd (update_one_status 0 ''processing'' (schedules (the (db sched_world)))))) = 1
   \<and> length (runs_of (evloop (dispatch_all (find_due 0 (schedules (the (db sched_world))))
        (dispatch_all (find_due 0 (schedules (the (db sched_world)))) sched_world))) 0) = 2"
proof -
  have l: "loop_set (task_tracker sched_world)"
    by (simp add: sched_world_def start_world_def tracker_init_def)
  let ?snap = "find_due 0 (schedules (the (db sched_world)))"
  have snap: "map fst ?snap = [0]" by (simp add: sched_world_def find_due_def)
  have r0: "runs_of (evloop sched_world) 0 = []"
    by (simp add: sched_world_def start_world_def runs_of_def loop_init_def)
  have l1: "loop_set (task_tracker (dispatch_all ?snap sched_world))"
    by (rule dispatch_all_loop_set[OF l])
  have "length (runs_of (evloop (dispatch_all ?snap (dispatch_all ?snap sched_world))) 0) = 2"
    using dispatch_all_runs[OF l1, of ?snap 0] dispatch_all_runs[OF l, of ?snap 0]
    by (simp add: snap r0)
  moreover have "status_of (db sched_world) 0 = Some ''pending''"
    by (simp add: sched_world_def status_of_def)
  moreover have "fst (update_one_status 0 ''processing'' (schedules (the (db sched_world)))) = 1"
    by (simp add: sched_world_def update_one_status_def)
  moreover have "map_option se_status
        (map_of (snd (update_one_status 0 ''processing'' (schedules (the (db sched_world))))) 0)
        = Some ''processing''"
    by (simp add: sched_world_def update_one_status_def)
  moreover have "fst (update_one_status 0 ''processing''
        (snd (update_one_status 0 ''processing'' (schedules (the (db sched_world)))))) = 1"
    by (simp add: sched_world_def update_one_status_def)
  ultimately show ?thesis by simp
qed

subsection \<open>ConcurrencyGate\<close>

text \<open>
  As long as the limit is not reloaded, the permits held never exceed it: entering and
  leaving the \<^verbatim>\<open>async with upload_semaphore\<close> block keep the startup semaphore balanced.
\<close>

lemma gate_invI:
  assumes "upload_semaphore g = 0" and "length (sems g) = 1"
    and "sems g ! 0 + length (holding g) = limit"
    and "snd ` set (holding g) \<subseteq> {0}" and "snd ` set (waiting g) \<subseteq> {0}"
    and "max_concurrent_uploads g = int limit"
  shows "gate_inv limit g"
  using assms by (simp add: gate_inv_def)

lemma gate_invD:
  assumes "gate_inv limit g"
  shows "upload_semaphore g = 0" and "length (sems g) = 1"
    and "sems g ! 0 + length (holding g) = limit"
    and "snd ` set (holding g) \<subseteq> {0}" and "snd ` set (waiting g) \<subseteq> {0}"
    and "max_concurrent_uploads g = int limit"
  using assms by (simp_all add: gate_inv_def)

lemma gate_inv_start: "gate_inv limit (gate_start limit)"
  by (simp add: gate_inv_def gate_start_def)

lemma gate_inv_enter:
  assumes "gate_inv limit g"
  shows "gate_inv limit (sem_enter r g)"
proof -
  note i = gate_invD[OF assms]
  show ?thesis
  proof (cases "0 < sems g ! 0 \<and> 0 \<notin> snd ` set (waiting g)")
    case True
    have en: "sem_enter r g =
        g\<lparr>sems := (sems g)[0 := sems g ! 0 - 1], holding := holding g @ [(r, 0)]\<rparr>"
      using True i(1) i(2) by (simp add: sem_enter_def Let_def)
    have sum: "sems g ! 0 - 1 + (length (holding g) + 1) = limit"
      using i(3) True by simp
    show ?thesis unfolding en
      using i(1) i(2) i(4) i(5) i(6) sum by (simp add: gate_inv_def)
  next
    case False
    have en: "sem_enter r g = g\<lparr>waiting := waiting g @ [(r, 0)]\<rparr>"
      using False i(1) i(2) by (cases "0 < sems g ! 0") (simp_all add: sem_enter_def Let_def)
    show ?thesis unfolding en
      using i by (simp add: gate_inv_def)
  qed
qed

lemma gate_inv_leave:
  assumes "gate_inv limit g"
  shows "gate_inv limit (sem_leave r g)"
proof (cases "map_of (holding g) r")
  case None
  then show ?thesis using assms by (simp add: sem_leave_def)
next
  case (Some a)
  note i = gate_invD[OF assms]
  have mem: "(r, a) \<in> set (holding g)" using Some by (rule map_of_SomeD)
  have a0: "a = 0" using mem i(4) by force
  have pos: "0 < length (holding g)" using mem by (rule length_pos_if_in_set)
  have len: "length (remove1 (r, a) (holding g)) = length (holding g) - 1"
    using mem by (simp add: length_remove1)
  have "set (remove1 (r, a) (holding g)) \<subseteq> set (holding g)" by (rule set_remove1_subset)
  then have "snd ` set (remove1 (r, a) (holding g)) \<subseteq> snd ` set (holding g)" by (rule image_mono)
  then have sub: "snd ` set (remove1 (r, a) (holding g)) \<subseteq> {0}" using i(4) by (rule subset_trans)
  show ?thesis
  proof (cases "find (\<lambda>(r, b). b = a) (waiting g)")
    case None
    have lv: "sem_leave r g =
        g\<lparr>sems := (sems g)[0 := sems g ! 0 + 1], holding := remove1 (r, a) (holding g)\<rparr>"
      using Some None a0 by (simp add: sem_leave_def)
    have sum: "sems g ! 0 + 1 + (length (holding g) - 1) = limit" using i(3) pos by arith
    show ?thesis unfolding lv
      using i(1) i(2) i(5) i(6) sub sum len by (simp add: gate_inv_def)
  next
    case (Some rb)
    obtain r' b where rb: "rb = (r', b)" by (cases rb)
    have lv: "sem_leave r g =
        g\<lparr>holding := remove1 (r, a) (holding g) @ [(r', 0)],
          waiting := remove1 (r', b) (waiting g)\<rparr>"
      using \<open>map_of (holding g) r = Some a\<close> Some rb a0 by (simp add: sem_leave_def)
    have "set (remove1 (r', b) (waiting g)) \<subseteq> set (waiting g)" by (rule set_remove1_subset)
    then have "snd ` set (remove1 (r', b) (waiting g)) \<subseteq> snd ` set (waiting g)" by (rule image_mono)
    then have ws': "snd ` set (remove1 (r', b) (waiting g)) \<subseteq> {0}" using i(5) by (rule subset_trans)
    have sum: "sems g ! 0 + (length (holding g) - 1 + 1) = limit" using i(3) pos by arith
    show ?thesis unfolding lv
      using i(1) i(2) i(6) sub ws' sum len by (simp add: gate_inv_def)
  qed
qed

lemma gate_inv_step:
  assumes "gate_inv limit g" and "\<not> is_reload op"
  shows "gate_inv limit (gate_step op g)"
proof (cases op)
  case (Enter r)
  then show ?thesis using assms(1) by (simp add: gate_inv_enter)
next
  case (Leave r)
  then show ?thesis using assms(1) by (simp add: gate_inv_leave)
next
  case (SetMaxUploads n)
  then show ?thesis using assms(2) by (simp add: is_reload_def)
qed

lemma gate_inv_fold:
  "gate_inv limit g \<Longrightarrow> list_all (\<lambda>op. \<not> is_reload op) ops \<Longrightarrow> gate_inv limit (fold gate_step ops g)"
proof (induction ops arbitrary: g)
  case Nil
  then show ?case by simp
next
  case (Cons op ops)
  have "gate_inv limit (gate_step op g)"
    using Cons.prems by (simp add: gate_inv_step)
  then show ?case using Cons by simp
qed

text \<open>
  Without a reload, the number of runs inside the block is at most
  \<open>max_concurrent_uploads\<close>, whatever the order in which runs enter and leave.
\<close>

lemma gate_bound_without_reload:
  assumes "list_all (\<lambda>op. \<not> is_reload op) ops"
  shows "int (length (holding (gate_run ops (gate_start limit))))
           \<le> max_concurrent_uploads (gate_run ops (gate_start limit))"
proof -
  have "gate_inv limit (gate_run ops (gate_start limit))"
    unfolding gate_run_def by (rule gate_inv_fold[OF gate_inv_start assms])
  from gate_invD(3)[OF this] gate_invD(6)[OF this] show ?thesis by simp
qed

text \<open>
  Claim C2: at every instant the number of pipeline runs holding a global permit is at
  most \<open>max_concurrent_uploads\<close>, also across hot-reloads of the limit. The code does not
  keep this across a reload. With the limit at 1, run 1 enters the block; the admin sends
  \<^verbatim>\<open>1\<close> in the state \<^verbatim>\<open>waiting_for_max_uploads\<close>, which binds the global to a fresh
  \<^verbatim>\<open>asyncio.Semaphore(1)\<close>; run 2 then enters on the new object while run 1 still holds
  its permit of the old one. Two runs hold a permit and the limit is 1.
\<close>

theorem hot_reload_exceeds_limit:
  "holding (gate_run [Enter 1, SetMaxUploads 1, Enter 2] (gate_start 1)) = [(1, 0), (2, 1)]
   \<and> max_concurrent_uploads (gate_run [Enter 1, SetMaxUploads 1, Enter 2] (gate_start 1)) = 1
   \<and> \<not> int (length (holding (gate_run [Enter 1, SetMaxUploads 1, Enter 2] (gate_start 1))))
         \<le> max_concurrent_uploads (gate_run [Enter 1, SetMaxUploads 1, Enter 2] (gate_start 1))"
  by (simp add: gate_run_def gate_start_def sem_enter_def set_max_uploads_def Let_def)

end
